theory Spec2Isabelle
  imports Main "HOL-Library.Word" "HOL-Library.Char_ord" "HOL-Library.Sublist"
begin

unbundle bit_operations_syntax

section \<open>Byte classification tables\<close>

text \<open>
  A Go string is a sequence of bytes; it is modelled as a \<^typ>\<open>string\<close>, whose
  characters are 8-bit values.  The four tables \<open>isHexChar\<close>, \<open>isB64Char\<close>,
  \<open>isB64NotHex\<close> and \<open>isWhitespace\<close> are arrays of 256 booleans filled by
  \<open>init\<close>; each is modelled by the predicate that \<open>init\<close> makes true.
\<close>

definition isHexChar :: "char \<Rightarrow> bool" where
  "isHexChar c \<longleftrightarrow>
     (CHR ''0'' \<le> c \<and> c \<le> CHR ''9'') \<or>
     (CHR ''A'' \<le> c \<and> c \<le> CHR ''F'') \<or>
     (CHR ''a'' \<le> c \<and> c \<le> CHR ''f'')"

definition isB64NotHex :: "char \<Rightarrow> bool" where
  "isB64NotHex c \<longleftrightarrow>
     (CHR ''G'' \<le> c \<and> c \<le> CHR ''Z'') \<or>
     (CHR ''g'' \<le> c \<and> c \<le> CHR ''z'') \<or>
     c = CHR ''_'' \<or> c = CHR ''/'' \<or> c = CHR ''+'' \<or> c = CHR ''-''"

definition isB64Char :: "char \<Rightarrow> bool" where
  "isB64Char c \<longleftrightarrow>
     (CHR ''0'' \<le> c \<and> c \<le> CHR ''9'') \<or>
     (CHR ''A'' \<le> c \<and> c \<le> CHR ''F'') \<or>
     (CHR ''a'' \<le> c \<and> c \<le> CHR ''f'') \<or>
     (CHR ''G'' \<le> c \<and> c \<le> CHR ''Z'') \<or>
     (CHR ''g'' \<le> c \<and> c \<le> CHR ''z'') \<or>
     c = CHR ''_'' \<or> c = CHR ''/'' \<or> c = CHR ''+'' \<or> c = CHR ''-''"

definition isWhitespace :: "char \<Rightarrow> bool" where
  "isWhitespace c \<longleftrightarrow>
     c = CHR '' '' \<or> c = CHR 0x09 \<or> c = CHR 0x0A \<or> c = CHR 0x0D \<or>
     c = CHR 0x0C \<or> c = CHR 0x0B"

section \<open>Encodings and matches\<close>

datatype encodingKind = percentKind | unicodeKind | hexKind | base64Kind

text \<open>
  The struct \<open>encoding\<close> has a third field, the decode function of the kind; the scanner
  never calls it, and three of the four decoders live outside the scanner's and the
  Unicode decoder's files, so the record keeps the two fields the scanner reads.
\<close>

record encoding =
  kind :: encodingKind
  precedence :: nat

record startEnd =
  start :: nat
  end_pos :: nat

text \<open>An \<open>encodingMatch\<close> embeds a \<open>startEnd\<close>; the embedded field bears the type's name.\<close>

record encodingMatch =
  encoding :: encoding
  startEnd :: startEnd

definition encodings :: "encoding list" where
  "encodings =
     [\<lparr>kind = percentKind, precedence = 4\<rparr>,
      \<lparr>kind = unicodeKind, precedence = 3\<rparr>,
      \<lparr>kind = hexKind, precedence = 2\<rparr>,
      \<lparr>kind = base64Kind, precedence = 1\<rparr>]"

text \<open>The composite literal \<open>encodingMatch{encoding: encodings[k], startEnd: startEnd{s, e}}\<close>.\<close>

definition newMatch :: "nat \<Rightarrow> nat \<Rightarrow> nat \<Rightarrow> encodingMatch" where
  "newMatch k s e = \<lparr>encoding = encodings ! k, startEnd = \<lparr>start = s, end_pos = e\<rparr>\<rparr>"

section \<open>The scanner\<close>

subsection \<open>Recognisers at a position\<close>

text \<open>
  The tests the scanner makes at a position.  Go's \<open>&&\<close> evaluates left to right and stops
  at the first false operand, so the source reads an index only under the bound that guards
  it.  A conjunction of HOL has no order, and one whose bound fails is false whatever the
  guarded reads are, so each test below is the source's conjunction.
\<close>

text \<open>\<open>data[i] == '%' && i+2 < n && isHexChar[data[i+1]] && isHexChar[data[i+2]]\<close>\<close>

definition percentAt :: "string \<Rightarrow> nat \<Rightarrow> bool" where
  "percentAt data i \<longleftrightarrow>
     data ! i = CHR ''%'' \<and> i + 2 < length data \<and>
     isHexChar (data ! (i + 1)) \<and> isHexChar (data ! (i + 2))"

text \<open>\<open>U+\<close> and four hex digits at \<open>i\<close>: the test of the main loop and of the merging loop.\<close>

definition codePointAt :: "string \<Rightarrow> nat \<Rightarrow> bool" where
  "codePointAt data i \<longleftrightarrow>
     i + 5 < length data \<and> data ! i = CHR ''U'' \<and> data ! (i + 1) = CHR ''+'' \<and>
     isHexChar (data ! (i + 2)) \<and> isHexChar (data ! (i + 3)) \<and>
     isHexChar (data ! (i + 4)) \<and> isHexChar (data ! (i + 5))"

text \<open>\<open>afterHex >= n || isWhitespace[data[afterHex]]\<close>\<close>

definition endsGroup :: "string \<Rightarrow> nat \<Rightarrow> bool" where
  "endsGroup data afterHex \<longleftrightarrow> afterHex \<ge> length data \<or> isWhitespace (data ! afterHex)"

text \<open>
  The double-backslash escape.  The main loop tests it under the bound \<open>i+7 < n\<close>, the
  merging loops under \<open>j+6 < n\<close>; \<open>b\<close> is that offset.
\<close>

definition doubleEscapeAt :: "nat \<Rightarrow> string \<Rightarrow> nat \<Rightarrow> bool" where
  "doubleEscapeAt b data j \<longleftrightarrow>
     j + b < length data \<and> data ! j = CHR 0x5C \<and> data ! (j + 1) = CHR 0x5C \<and>
     (data ! (j + 2) = CHR ''u'' \<or> data ! (j + 2) = CHR ''U'') \<and>
     isHexChar (data ! (j + 3)) \<and> isHexChar (data ! (j + 4)) \<and>
     isHexChar (data ! (j + 5)) \<and> isHexChar (data ! (j + 6))"

definition singleEscapeAt :: "string \<Rightarrow> nat \<Rightarrow> bool" where
  "singleEscapeAt data j \<longleftrightarrow>
     j + 5 < length data \<and> data ! j = CHR 0x5C \<and>
     (data ! (j + 1) = CHR ''u'' \<or> data ! (j + 1) = CHR ''U'') \<and>
     isHexChar (data ! (j + 2)) \<and> isHexChar (data ! (j + 3)) \<and>
     isHexChar (data ! (j + 4)) \<and> isHexChar (data ! (j + 5))"

subsection \<open>Inner loops\<close>

text \<open>The percent loop: \<open>for j < n && data[j] != '\n'\<close>, tracking \<open>lastPercentEnd\<close>.\<close>

function percentLoop :: "string \<Rightarrow> nat \<Rightarrow> nat \<Rightarrow> nat" where
  "percentLoop data j lastPercentEnd =
     (if j < length data \<and> data ! j \<noteq> CHR 0x0A
      then percentLoop data (j + 1) (if percentAt data j then j + 3 else lastPercentEnd)
      else lastPercentEnd)"
  by pat_completeness auto
termination
  by (relation "measure (\<lambda>(data, j, e). length data - j)") auto

declare percentLoop.simps [simp del]

text \<open>\<open>for ws < n && isWhitespace[data[ws]] { ws++ }\<close>\<close>

function skipWhitespace :: "string \<Rightarrow> nat \<Rightarrow> nat" where
  "skipWhitespace data ws =
     (if ws < length data \<and> isWhitespace (data ! ws)
      then skipWhitespace data (ws + 1) else ws)"
  by pat_completeness auto
termination
  by (relation "measure (\<lambda>(data, ws). length data - ws)") auto

declare skipWhitespace.simps [simp del]

lemma skipWhitespace_ge: "j \<le> skipWhitespace data j"
proof (induction data j rule: skipWhitespace.induct)
  case (1 data ws)
  show ?case
  proof (cases "ws < length data \<and> isWhitespace (data ! ws)")
    case True
    with 1 have "ws + 1 \<le> skipWhitespace data (ws + 1)" by simp
    moreover from True have "skipWhitespace data ws = skipWhitespace data (ws + 1)"
      by (subst skipWhitespace.simps) simp
    ultimately show ?thesis by simp
  next
    case False
    then show ?thesis by (subst skipWhitespace.simps) auto
  qed
qed

text \<open>The loop that merges further \<open>U+XXXX\<close> groups; it returns \<open>end\<close>.\<close>

function codePointLoop :: "string \<Rightarrow> nat \<Rightarrow> nat \<Rightarrow> nat" where
  "codePointLoop data j end' =
     (if j < length data then
        (if \<not> isWhitespace (data ! j) then end'
         else
           (let ws = skipWhitespace data j in
            if codePointAt data ws \<and> endsGroup data (ws + 6)
            then codePointLoop data (ws + 6) (ws + 6)
            else end'))
      else end')"
  by pat_completeness auto
termination
proof (relation "measure (\<lambda>(data, j, e). length data - j)")
  show "wf (measure (\<lambda>(data, j, e). length data - j))" by simp
next
  fix data :: string and j end' ws :: nat
  assume "j < length data" and "ws = skipWhitespace data j"
  moreover have "j \<le> skipWhitespace data j" by (rule skipWhitespace_ge)
  ultimately show "((data, ws + 6, ws + 6), data, j, end')
      \<in> measure (\<lambda>(data, j, e). length data - j)"
    by simp
qed

declare codePointLoop.simps [simp del]

text \<open>
  The loop that merges further escapes of either form.  The source has it twice, after a
  double-backslash and after a single-backslash first escape, with the same text.
\<close>

function escapeLoop :: "string \<Rightarrow> nat \<Rightarrow> nat \<Rightarrow> nat" where
  "escapeLoop data j end' =
     (if j < length data then
        (if doubleEscapeAt 6 data j then escapeLoop data (j + 7) (j + 7)
         else if singleEscapeAt data j then escapeLoop data (j + 6) (j + 6)
         else end')
      else end')"
  by pat_completeness auto
termination
  by (relation "measure (\<lambda>(data, j, e). length data - j)") auto

declare escapeLoop.simps [simp del]

text \<open>The run loop: advances \<open>i\<close> over base64 characters and clears \<open>allHex\<close>.\<close>

function runLoop :: "string \<Rightarrow> nat \<Rightarrow> bool \<Rightarrow> nat \<times> bool" where
  "runLoop data i allHex =
     (if i < length data \<and> isB64Char (data ! i)
      then runLoop data (i + 1) (if isB64NotHex (data ! i) then False else allHex)
      else (i, allHex))"
  by pat_completeness auto
termination
  by (relation "measure (\<lambda>(data, i, h). length data - i)") auto

declare runLoop.simps [simp del]

text \<open>\<open>for eqCount < 2 && end < n && data[end] == '='\<close>; it returns \<open>end\<close>.\<close>

function paddingLoop :: "string \<Rightarrow> nat \<Rightarrow> nat \<Rightarrow> nat" where
  "paddingLoop data eqCount end' =
     (if eqCount < 2 \<and> end' < length data \<and> data ! end' = CHR ''=''
      then paddingLoop data (eqCount + 1) (end' + 1)
      else end')"
  by pat_completeness auto
termination
  by (relation "measure (\<lambda>(data, eqCount, e). 2 - eqCount)") auto

declare paddingLoop.simps [simp del]

lemma percentLoop_ge: "e \<le> j + 3 \<Longrightarrow> e \<le> percentLoop data j e"
proof (induction data j e rule: percentLoop.induct)
  case (1 data j e)
  show ?case
  proof (cases "j < length data \<and> data ! j \<noteq> CHR 0x0A")
    case True
    let ?e = "if percentAt data j then j + 3 else e"
    have "?e \<le> j + 1 + 3" using "1.prems" by simp
    with True "1.IH" have "?e \<le> percentLoop data (j + 1) ?e" by blast
    moreover have "e \<le> ?e" using "1.prems" by simp
    moreover from True have "percentLoop data j e = percentLoop data (j + 1) ?e"
      by (subst percentLoop.simps) simp
    ultimately show ?thesis by simp
  next
    case False
    then show ?thesis by (subst percentLoop.simps) auto
  qed
qed

lemma codePointLoop_ge: "e \<le> j \<Longrightarrow> e \<le> codePointLoop data j e"
proof (induction data j e rule: codePointLoop.induct)
  case (1 data j e)
  let ?ws = "skipWhitespace data j"
  show ?case
  proof (cases "j < length data \<and> isWhitespace (data ! j) \<and> codePointAt data ?ws
      \<and> endsGroup data (?ws + 6)")
    case True
    then have "?ws + 6 \<le> codePointLoop data (?ws + 6) (?ws + 6)"
      using "1.IH" [of ?ws] by simp
    moreover from True have "codePointLoop data j e = codePointLoop data (?ws + 6) (?ws + 6)"
      by (subst codePointLoop.simps) (simp add: Let_def)
    moreover have "j \<le> ?ws" by (rule skipWhitespace_ge)
    ultimately show ?thesis using "1.prems" by simp
  next
    case False
    then have "codePointLoop data j e = e"
      by (subst codePointLoop.simps) (auto simp: Let_def)
    then show ?thesis by simp
  qed
qed

lemma escapeLoop_ge: "e \<le> j \<Longrightarrow> e \<le> escapeLoop data j e"
proof (induction data j e rule: escapeLoop.induct)
  case (1 data j e)
  consider (dbl) "j < length data" "doubleEscapeAt 6 data j"
    | (sgl) "j < length data" "\<not> doubleEscapeAt 6 data j" "singleEscapeAt data j"
    | (stop) "\<not> (j < length data \<and> (doubleEscapeAt 6 data j \<or> singleEscapeAt data j))"
    by blast
  then show ?case
  proof cases
    case dbl
    then have "j + 7 \<le> escapeLoop data (j + 7) (j + 7)" using "1.IH"(1) by simp
    moreover from dbl have "escapeLoop data j e = escapeLoop data (j + 7) (j + 7)"
      by (subst escapeLoop.simps) simp
    ultimately show ?thesis using "1.prems" by simp
  next
    case sgl
    then have "j + 6 \<le> escapeLoop data (j + 6) (j + 6)" using "1.IH"(2) by simp
    moreover from sgl have "escapeLoop data j e = escapeLoop data (j + 6) (j + 6)"
      by (subst escapeLoop.simps) simp
    ultimately show ?thesis using "1.prems" by simp
  next
    case stop
    then have "escapeLoop data j e = e" by (subst escapeLoop.simps) auto
    then show ?thesis by simp
  qed
qed

lemma runLoop_ge: "i \<le> fst (runLoop data i h)"
proof (induction data i h rule: runLoop.induct)
  case (1 data i h)
  show ?case
  proof (cases "i < length data \<and> isB64Char (data ! i)")
    case True
    let ?h = "if isB64NotHex (data ! i) then False else h"
    from True "1.IH" have "i + 1 \<le> fst (runLoop data (i + 1) ?h)" by blast
    moreover from True have "runLoop data i h = runLoop data (i + 1) ?h"
      by (subst runLoop.simps) simp
    ultimately show ?thesis by simp
  next
    case False
    then show ?thesis by (subst runLoop.simps) auto
  qed
qed

subsection \<open>The main loop\<close>

text \<open>
  One iteration of the main loop at cursor \<open>i < n\<close>: the matches it appends to \<open>all\<close> (one
  or none) and the cursor it leaves.  The branches are the source's, in its order:
  percent, \<open>U+XXXX\<close>, double-backslash escape (bound \<open>i+7 < n\<close>), single-backslash escape,
  hex or base64 run, and otherwise \<open>i++\<close>.
\<close>

definition scanStep :: "string \<Rightarrow> nat \<Rightarrow> encodingMatch list \<times> nat" where
  "scanStep data i =
     (let c = data ! i in
      if percentAt data i then
        (let lastPercentEnd = percentLoop data (i + 3) (i + 3)
         in ([newMatch 0 i lastPercentEnd], lastPercentEnd))
      else if codePointAt data i \<and> endsGroup data (i + 6) then
        (let end' = codePointLoop data (i + 6) (i + 6)
         in ([newMatch 1 i end'], end'))
      else if doubleEscapeAt 7 data i then
        (let end' = escapeLoop data (i + 7) (i + 7)
         in ([newMatch 1 i end'], end'))
      else if singleEscapeAt data i then
        (let end' = escapeLoop data (i + 6) (i + 6)
         in ([newMatch 1 i end'], end'))
      else if isB64Char c then
        (let (i', allHex) = runLoop data (i + 1) (\<not> isB64NotHex c);
             runLen = i' - i;
             end' = paddingLoop data 0 i'
         in (if allHex \<and> runLen \<ge> 32 then [newMatch 2 i (i + runLen)]
             else if runLen \<ge> 16 then [newMatch 3 i end']
             else [],
             i'))
      else ([], i + 1))"

lemma scanStep_advances: "i < snd (scanStep data i)"
proof -
  have "i + 3 \<le> percentLoop data (i + 3) (i + 3)" by (rule percentLoop_ge) simp
  moreover have "i + 6 \<le> codePointLoop data (i + 6) (i + 6)" by (rule codePointLoop_ge) simp
  moreover have "i + 7 \<le> escapeLoop data (i + 7) (i + 7)" by (rule escapeLoop_ge) simp
  moreover have "i + 6 \<le> escapeLoop data (i + 6) (i + 6)" by (rule escapeLoop_ge) simp
  moreover have "i + 1 \<le> fst (runLoop data (i + 1) h)" for h by (rule runLoop_ge)
  ultimately show ?thesis
    by (auto simp: scanStep_def Let_def split: prod.splits dest: order_less_le_trans
        simp: Suc_le_eq) (metis fst_conv)+
qed

function scanLoop :: "string \<Rightarrow> nat \<Rightarrow> encodingMatch list \<Rightarrow> encodingMatch list" where
  "scanLoop data i all =
     (if i < length data
      then (case scanStep data i of (ms, i') \<Rightarrow> scanLoop data i' (all @ ms))
      else all)"
  by pat_completeness auto
termination
proof (relation "measure (\<lambda>(data, i, all). length data - i)")
  show "wf (measure (\<lambda>(data, i, all). length data - i))" by simp
next
  fix data :: string and i :: nat and all ms :: "encodingMatch list" and i' :: nat
  assume "i < length data" and "(ms, i') = scanStep data i"
  moreover have "i < snd (scanStep data i)" by (rule scanStep_advances)
  ultimately show "((data, i', all @ ms), data, i, all)
      \<in> measure (\<lambda>(data, i, all). length data - i)"
    by (auto simp: diff_less_mono2 dest: sym)
qed

declare scanLoop.simps [simp del]

text \<open>
  The values that the cursor \<open>i\<close> has at the head of the main loop, from \<open>i\<close> on: the
  positions at which the loop body runs.
\<close>

function cursors :: "string \<Rightarrow> nat \<Rightarrow> nat list" where
  "cursors data i = (if i < length data then i # cursors data (snd (scanStep data i)) else [])"
  by pat_completeness auto
termination
proof (relation "measure (\<lambda>(data, i). length data - i)")
  show "wf (measure (\<lambda>(data, i). length data - i))" by simp
next
  fix data :: string and i :: nat
  assume "i < length data"
  moreover have "i < snd (scanStep data i)" by (rule scanStep_advances)
  ultimately show "((data, snd (scanStep data i)), data, i) \<in> measure (\<lambda>(data, i). length data - i)"
    by (simp add: diff_less_mono2)
qed

declare cursors.simps [simp del]

subsection \<open>The precedence filter\<close>

text \<open>
  Modelled from the spec: the method \<open>overlaps\<close> of \<open>startEnd\<close> is declared in a file of the
  repository that is not among the sources at hand.  The spec's data model says that a span
  is the interval \<open>[start, end)\<close> and that two spans overlap if their intervals intersect.
  The filter below takes the overlap test as a parameter, so that what is proved of the
  scanner holds of every such test; this definition instantiates it on concrete texts.
\<close>

definition overlaps :: "startEnd \<Rightarrow> startEnd \<Rightarrow> bool" where
  "overlaps s o' \<longleftrightarrow> max (start s) (start o') < min (end_pos s) (end_pos o')"

text \<open>
  The loop \<open>for i, m := range all\<close>: a match is skipped when it overlaps its predecessor or
  its successor in \<open>all\<close> and that neighbour has the greater precedence.
\<close>

function filterLoop :: "(startEnd \<Rightarrow> startEnd \<Rightarrow> bool) \<Rightarrow> encodingMatch list \<Rightarrow> nat \<Rightarrow>
    encodingMatch list \<Rightarrow> encodingMatch list" where
  "filterLoop ov all i filtered =
     (if i < length all then
        (let m = all ! i in
         if i > 0 \<and> ov (startEnd m) (startEnd (all ! (i - 1))) \<and>
            precedence (encoding (all ! (i - 1))) > precedence (encoding m)
         then filterLoop ov all (i + 1) filtered
         else if i + 1 < length all \<and> ov (startEnd m) (startEnd (all ! (i + 1))) \<and>
            precedence (encoding (all ! (i + 1))) > precedence (encoding m)
         then filterLoop ov all (i + 1) filtered
         else filterLoop ov all (i + 1) (filtered @ [m]))
      else filtered)"
  by pat_completeness auto
termination
  by (relation "measure (\<lambda>(ov, all, i, filtered). length all - i)") auto

declare filterLoop.simps [simp del]

text \<open>
  \<open>findEncodingMatches\<close>: the empty text gives no match; a list of at most one candidate is
  returned as it is; a longer one goes through the filter.
\<close>

definition findEncodingMatches :: "(startEnd \<Rightarrow> startEnd \<Rightarrow> bool) \<Rightarrow> string \<Rightarrow>
    encodingMatch list" where
  "findEncodingMatches ov data =
     (if length data = 0 then []
      else
        (let all = scanLoop data 0 [];
             totalMatches = length all
         in if totalMatches \<le> 1 then all else filterLoop ov all 0 []))"

section \<open>The Unicode decoder\<close>

text \<open>
  A \<open>rune\<close> is a 32-bit integer and a byte an 8-bit one.  The bytes written to the
  output are characters of the resulting string.
\<close>

type_synonym rune = "32 word"

definition byteChar :: "8 word \<Rightarrow> char" where
  "byteChar b = char_of (unat b)"

text \<open>
  Modelled from the spec: the table \<open>hexMap\<close> is declared in a file of the repository that
  is not among the sources at hand.  \<open>parseHex4\<close> reads it as a table from bytes to bytes
  whose entry \<open>0xff\<close> marks a byte that is no hex digit, and the spec says of such a byte
  that it fails to parse as hex; the model gives a hex digit its value and every other byte
  \<open>0xff\<close>.
\<close>

definition hexMap :: "char \<Rightarrow> 8 word" where
  "hexMap c =
     (if CHR ''0'' \<le> c \<and> c \<le> CHR ''9'' then of_nat (of_char c - of_char CHR ''0'')
      else if CHR ''A'' \<le> c \<and> c \<le> CHR ''F'' then of_nat (of_char c - of_char CHR ''A'' + 10)
      else if CHR ''a'' \<le> c \<and> c \<le> CHR ''f'' then of_nat (of_char c - of_char CHR ''a'' + 10)
      else 0xFF)"

text \<open>
  \<open>parseHex4\<close> returns a rune and a flag; the model returns \<open>None\<close> where the flag is
  false.  The loop \<open>for i := 0; i < 4; i++\<close> with \<open>val = val<<4 | rune(n)\<close>:
\<close>

function parseHex4Loop :: "string \<Rightarrow> nat \<Rightarrow> nat \<Rightarrow> rune \<Rightarrow> rune option" where
  "parseHex4Loop s offset i val =
     (if i < 4 then
        (let n = hexMap (s ! (offset + i)) in
         if n = 0xFF then None
         else parseHex4Loop s offset (i + 1) (push_bit 4 val OR ucast n))
      else Some val)"
  by pat_completeness auto
termination
  by (relation "measure (\<lambda>(s, offset, i, val). 4 - i)") auto

declare parseHex4Loop.simps [simp del]

definition parseHex4 :: "string \<Rightarrow> nat \<Rightarrow> rune option" where
  "parseHex4 s offset =
     (if offset + 4 > length s then None else parseHex4Loop s offset 0 0)"

text \<open>
  \<open>utf8.EncodeRune\<close> of Go's standard library, as its documentation and source give it: the
  UTF-8 encoding of the rune, in one to four bytes, and the encoding of \<open>RuneError\<close>
  (\<open>U+FFFD\<close>) for a rune out of range or a surrogate half (\<open>U+D800\<close> to \<open>U+DFFF\<close>).  The
  model returns the bytes written, \<open>utf8Bytes[:utf8Len]\<close>.
\<close>

definition encode3 :: "rune \<Rightarrow> string" where
  "encode3 r =
     [byteChar (0xE0 OR ucast (drop_bit 12 r)),
      byteChar (0x80 OR (ucast (drop_bit 6 r) AND 0x3F)),
      byteChar (0x80 OR (ucast r AND 0x3F))]"

definition EncodeRune :: "rune \<Rightarrow> string" where
  "EncodeRune r =
     (if r \<le> 0x7F then [byteChar (ucast r)]
      else if r \<le> 0x7FF then
        [byteChar (0xC0 OR ucast (drop_bit 6 r)),
         byteChar (0x80 OR (ucast r AND 0x3F))]
      else if r > 0x10FFFF \<or> (0xD800 \<le> r \<and> r \<le> 0xDFFF) then encode3 0xFFFD
      else if r \<le> 0xFFFF then encode3 r
      else
        [byteChar (0xF0 OR ucast (drop_bit 18 r)),
         byteChar (0x80 OR (ucast (drop_bit 12 r) AND 0x3F)),
         byteChar (0x80 OR (ucast (drop_bit 6 r) AND 0x3F)),
         byteChar (0x80 OR (ucast r AND 0x3F))])"

text \<open>\<open>strings.Contains(s, substr)\<close>: \<open>substr\<close> occurs in \<open>s\<close> as a contiguous block.\<close>

definition Contains :: "string \<Rightarrow> string \<Rightarrow> bool" where
  "Contains s substr \<longleftrightarrow> sublist substr s"

subsection \<open>Code-point notation\<close>

text \<open>
  After a decoded unit the cursor stands behind it; a space or a tab there is skipped when
  \<open>U+\<close> follows it (and \<open>i+6 < n\<close>).
\<close>

definition skipSeparator :: "string \<Rightarrow> nat \<Rightarrow> nat" where
  "skipSeparator s i =
     (if i < length s \<and> (s ! i = CHR '' '' \<or> s ! i = CHR 0x09) then
        (if i + 6 < length s \<and> s ! (i + 1) = CHR ''U'' \<and> s ! (i + 2) = CHR ''+''
         then i + 1 else i)
      else i)"

function codePointsLoop :: "string \<Rightarrow> nat \<Rightarrow> bool \<Rightarrow> string \<Rightarrow> bool \<times> string" where
  "codePointsLoop s i changed buf =
     (if i < length s then
        (if i + 5 < length s \<and> s ! i = CHR ''U'' \<and> s ! (i + 1) = CHR ''+'' then
           (case parseHex4 s (i + 2) of
              Some r \<Rightarrow> codePointsLoop s (skipSeparator s (i + 6)) True (buf @ EncodeRune r)
            | None \<Rightarrow> codePointsLoop s (i + 1) changed (buf @ [s ! i]))
         else codePointsLoop s (i + 1) changed (buf @ [s ! i]))
      else (changed, buf))"
  by pat_completeness auto
termination
  by (relation "measure (\<lambda>(s, i, changed, buf). length s - i)")
    (auto simp: skipSeparator_def)

declare codePointsLoop.simps [simp del]

definition decodeUnicodeCodePoints :: "string \<Rightarrow> string" where
  "decodeUnicodeCodePoints s =
     (case codePointsLoop s 0 False [] of
        (changed, buf) \<Rightarrow> if \<not> changed then s else buf)"

subsection \<open>Escape notation\<close>

text \<open>
  The two attempts at a backslash at \<open>i\<close>: the rune of a double-backslash unit
  (\<open>i+6 < n\<close>, a second backslash, \<open>u\<close> or \<open>U\<close>, \<open>parseHex4(s, i+3)\<close>) and of a
  single-backslash unit (\<open>i+5 < n\<close>, \<open>u\<close> or \<open>U\<close>, \<open>parseHex4(s, i+2)\<close>).
\<close>

definition doubleUnit :: "string \<Rightarrow> nat \<Rightarrow> rune option" where
  "doubleUnit s i =
     (if i + 6 < length s \<and> s ! (i + 1) = CHR 0x5C \<and>
         (s ! (i + 2) = CHR ''u'' \<or> s ! (i + 2) = CHR ''U'')
      then parseHex4 s (i + 3) else None)"

definition singleUnit :: "string \<Rightarrow> nat \<Rightarrow> rune option" where
  "singleUnit s i =
     (if i + 5 < length s \<and> (s ! (i + 1) = CHR ''u'' \<or> s ! (i + 1) = CHR ''U'')
      then parseHex4 s (i + 2) else None)"

function escapesLoop :: "string \<Rightarrow> nat \<Rightarrow> bool \<Rightarrow> string \<Rightarrow> bool \<times> string" where
  "escapesLoop s i changed buf =
     (if i < length s then
        (if s ! i = CHR 0x5C then
           (case doubleUnit s i of
              Some r \<Rightarrow> escapesLoop s (i + 7) True (buf @ EncodeRune r)
            | None \<Rightarrow>
                (case singleUnit s i of
                   Some r \<Rightarrow> escapesLoop s (i + 6) True (buf @ EncodeRune r)
                 | None \<Rightarrow> escapesLoop s (i + 1) changed (buf @ [s ! i])))
         else escapesLoop s (i + 1) changed (buf @ [s ! i]))
      else (changed, buf))"
  by pat_completeness auto
termination
  by (relation "measure (\<lambda>(s, i, changed, buf). length s - i)") auto

declare escapesLoop.simps [simp del]

definition decodeUnicodeEscapes :: "string \<Rightarrow> string" where
  "decodeUnicodeEscapes s =
     (case escapesLoop s 0 False [] of
        (changed, buf) \<Rightarrow> if \<not> changed then s else buf)"

subsection \<open>Dispatch\<close>

definition decodeUnicode :: "string \<Rightarrow> string" where
  "decodeUnicode encodedValue =
     (if Contains encodedValue ''U+'' then decodeUnicodeCodePoints encodedValue
      else if Contains encodedValue [CHR 0x5C, CHR ''u''] \<or>
              Contains encodedValue [CHR 0x5C, CHR ''U'']
      then decodeUnicodeEscapes encodedValue
      else encodedValue)"


section \<open>The rules of the spec\<close>

text \<open>
  The spec's conflict rule, in its words: a match is dropped if it overlaps an adjacent match
  of strictly higher precedence.  \<open>all\<close> is the list of candidates and \<open>i\<close> an index
  into it; the adjacent matches are its predecessor and its successor in the list.
\<close>

definition losesToNeighbour :: "(startEnd \<Rightarrow> startEnd \<Rightarrow> bool) \<Rightarrow> encodingMatch list \<Rightarrow> nat \<Rightarrow> bool" where
  "losesToNeighbour ov all i \<longleftrightarrow>
     (0 < i \<and> ov (startEnd (all ! i)) (startEnd (all ! (i - 1))) \<and>
        precedence (encoding (all ! i)) < precedence (encoding (all ! (i - 1)))) \<or>
     (i + 1 < length all \<and> ov (startEnd (all ! i)) (startEnd (all ! (i + 1))) \<and>
        precedence (encoding (all ! i)) < precedence (encoding (all ! (i + 1))))"

text \<open>
  The spec's percent rule: a span \<open>[s, e)\<close> that begins at a \<open>%XX\<close> triplet, ends at the end
  of a triplet, holds no newline, and has no triplet behind it on the same line.
\<close>

definition percentSpan :: "string \<Rightarrow> nat \<Rightarrow> nat \<Rightarrow> bool" where
  "percentSpan data s e \<longleftrightarrow>
     percentAt data s \<and> s + 3 \<le> e \<and> percentAt data (e - 3) \<and>
     (\<forall>k \<in> {s..<e}. data ! k \<noteq> CHR 0x0A) \<and>
     (\<forall>q \<in> {e..<length data}. (\<forall>k \<in> {s..q}. data ! k \<noteq> CHR 0x0A) \<longrightarrow> \<not> percentAt data q)"

text \<open>
  A qualifying group: \<open>U+\<close> and four hex digits, followed by whitespace or by the end of the
  text.  The spec's code-point rule: a span \<open>[s, e)\<close> that begins and ends with a qualifying
  group, consists of qualifying groups and whitespace only, and cannot be extended: no
  qualifying group follows it after a run of whitespace.
\<close>

definition qualifies :: "string \<Rightarrow> nat \<Rightarrow> bool" where
  "qualifies data g \<longleftrightarrow> codePointAt data g \<and> endsGroup data (g + 6)"


text \<open>
  The spec's run rule.  The run of a position is the stretch of base64-alphabet characters
  from that position to the first character that is not one.  A Hex span is a run of 32
  or more characters, all of them hex digits.  A Base64 span is a run of 16 or more
  characters that is no Hex span, with up to two \<open>=\<close> characters that follow it.
\<close>

definition hexSpan :: "string \<Rightarrow> nat \<Rightarrow> nat \<Rightarrow> bool" where
  "hexSpan data s e \<longleftrightarrow>
     (let run = takeWhile isB64Char (drop s data)
      in list_all isHexChar run \<and> 32 \<le> length run \<and> e = s + length run)"

definition base64Span :: "string \<Rightarrow> nat \<Rightarrow> nat \<Rightarrow> bool" where
  "base64Span data s e \<longleftrightarrow>
     (let run = takeWhile isB64Char (drop s data);
          padding = takeWhile (\<lambda>c. c = CHR ''='') (drop (s + length run) data)
      in 16 \<le> length run \<and> \<not> (list_all isHexChar run \<and> 32 \<le> length run) \<and>
         e = s + length run + min 2 (length padding))"

text \<open>
  The run rule at a position \<open>s\<close>, as one list: the Hex match of an all-hex run of 32
  characters or more, else the Base64 match of a run of 16 characters or more, with up to
  two \<open>=\<close> characters behind it, else nothing.  The length is that of the run alone.
\<close>

definition runMatch :: "string \<Rightarrow> nat \<Rightarrow> encodingMatch list" where
  "runMatch data s =
     (let run = takeWhile isB64Char (drop s data);
          padding = takeWhile (\<lambda>c. c = CHR ''='') (drop (s + length run) data)
      in if list_all isHexChar run \<and> 32 \<le> length run then [newMatch 2 s (s + length run)]
         else if 16 \<le> length run then [newMatch 3 s (s + length run + min 2 (length padding))]
         else [])"


section \<open>Units of the Unicode decoder\<close>

text \<open>
  The unit that the code-point routine reads at \<open>i\<close>, if it reads one there: the guard of
  its loop (\<open>i+5 < n\<close>, \<open>U\<close>, \<open>+\<close>) and the rune that \<open>parseHex4(s, i+2)\<close> returns.
\<close>

definition codePointUnit :: "string \<Rightarrow> nat \<Rightarrow> rune option" where
  "codePointUnit s i =
     (if i + 5 < length s \<and> s ! i = CHR ''U'' \<and> s ! (i + 1) = CHR ''+''
      then parseHex4 s (i + 2) else None)"


text \<open>
  The unit that the escape routine reads at \<open>i\<close>, if it reads one there, with the number of
  bytes it takes: seven for the double-backslash form, tried first, six for the
  single-backslash form.
\<close>

definition escapeUnit :: "string \<Rightarrow> nat \<Rightarrow> (rune \<times> nat) option" where
  "escapeUnit s i =
     (if i < length s \<and> s ! i = CHR 0x5C then
        (case doubleUnit s i of
           Some r \<Rightarrow> Some (r, 7)
         | None \<Rightarrow> (case singleUnit s i of Some r \<Rightarrow> Some (r, 6) | None \<Rightarrow> None))
      else None)"

text \<open>
  The value of a hex digit and of four of them, in the spec's words the code point that
  four hex digits denote.
\<close>

definition digitValue :: "char \<Rightarrow> nat" where
  "digitValue c =
     (if CHR ''0'' \<le> c \<and> c \<le> CHR ''9'' then of_char c - 48
      else if CHR ''A'' \<le> c \<and> c \<le> CHR ''F'' then of_char c - 55
      else if CHR ''a'' \<le> c \<and> c \<le> CHR ''f'' then of_char c - 87
      else 0)"

definition hex4Value :: "char \<Rightarrow> char \<Rightarrow> char \<Rightarrow> char \<Rightarrow> nat" where
  "hex4Value a b c d = 4096 * digitValue a + 256 * digitValue b + 16 * digitValue c + digitValue d"

definition hexDigits4 :: "string \<Rightarrow> bool" where
  "hexDigits4 d \<longleftrightarrow> length d = 4 \<and> list_all isHexChar d"

text \<open>
  The code point of a unit is the number its four hex digits denote; \<open>runeOf\<close> is that
  number as a rune.
\<close>

definition codePointOf :: "string \<Rightarrow> nat" where
  "codePointOf d = hex4Value (d ! 0) (d ! 1) (d ! 2) (d ! 3)"

definition runeOf :: "string \<Rightarrow> rune" where
  "runeOf d = of_nat (hex4Value (d ! 0) (d ! 1) (d ! 2) (d ! 3))"


text \<open>
  Modelled from the spec: the natural multi-byte (UTF-8) form of a code point below
  \<open>0x10000\<close>, by the table of the standard: one byte below \<open>0x80\<close>, two bytes below
  \<open>0x800\<close>, three bytes otherwise.  It is what the output of \<open>EncodeRune\<close> is compared with.
\<close>

definition utf8 :: "nat \<Rightarrow> string" where
  "utf8 n =
     (if n < 0x80 then [char_of n]
      else if n < 0x800 then [char_of (0xC0 + n div 64), char_of (0x80 + n mod 64)]
      else [char_of (0xE0 + n div 4096), char_of (0x80 + n div 64 mod 64),
            char_of (0x80 + n mod 64)])"

text \<open>
  Texts made of units.  A text in escape notation is a sequence of pieces: plain text
  without a backslash, and units, each a prefix \<open>\u\<close>, \<open>\U\<close>, \<open>\\u\<close> or \<open>\\U\<close> and four hex
  digits.  The decoded text has the encoded rune in the place of each unit.
\<close>

datatype piece = Text string | Unit string string

fun pieceText :: "piece \<Rightarrow> string" where
  "pieceText (Text t) = t"
| "pieceText (Unit p d) = p @ d"

fun pieceOut :: "piece \<Rightarrow> string" where
  "pieceOut (Text t) = t"
| "pieceOut (Unit p d) = EncodeRune (runeOf d)"

fun escapePiece :: "piece \<Rightarrow> bool" where
  "escapePiece (Text t) \<longleftrightarrow> CHR 0x5C \<notin> set t"
| "escapePiece (Unit p d) \<longleftrightarrow>
     p \<in> {[CHR 0x5C, CHR ''u''], [CHR 0x5C, CHR ''U''],
          [CHR 0x5C, CHR 0x5C, CHR ''u''], [CHR 0x5C, CHR 0x5C, CHR ''U'']} \<and> hexDigits4 d"

fun isUnit :: "piece \<Rightarrow> bool" where
  "isUnit (Text t) = False"
| "isUnit (Unit p d) = True"


text \<open>
  A text in code-point notation: plain text without \<open>U\<close>, then \<open>U+\<close> and four hex digits,
  then further groups, each behind one separator character.
\<close>

definition codePointText :: "string \<Rightarrow> string \<Rightarrow> (char \<times> string) list \<Rightarrow> string" where
  "codePointText t d ds = t @ ''U+'' @ d @ concat (map (\<lambda>(sep, d'). sep # ''U+'' @ d') ds)"

definition codePointOut :: "string \<Rightarrow> string \<Rightarrow> (char \<times> string) list \<Rightarrow> string" where
  "codePointOut t d ds =
     t @ EncodeRune (runeOf d) @ concat (map (\<lambda>(sep, d'). EncodeRune (runeOf d')) ds)"

text \<open>
  What the code-point routine goes on with behind a decoded unit, \<open>rest\<close> being the text
  behind the unit: a space or a tab at its head is dropped when \<open>U+\<close> follows it and the
  bound \<open>i+6 < n\<close> holds, that is, when \<open>rest\<close> has more than six bytes.
\<close>

definition dropSeparator :: "string \<Rightarrow> string" where
  "dropSeparator rest =
     (if 0 < length rest \<and> (rest ! 0 = CHR '' '' \<or> rest ! 0 = CHR 0x09) \<and>
         6 < length rest \<and> rest ! 1 = CHR ''U'' \<and> rest ! 2 = CHR ''+''
      then tl rest else rest)"


section \<open>Facts about the tables and the inner loops\<close>

lemma isHexChar_b64: "isHexChar c \<Longrightarrow> isB64Char c"
  by (auto simp: isHexChar_def isB64Char_def)

lemma isB64Char_split: "isB64Char c \<longleftrightarrow> isHexChar c \<or> isB64NotHex c"
  by (auto simp: isHexChar_def isB64Char_def isB64NotHex_def)

lemma isHexChar_not_nothex: "isHexChar c \<Longrightarrow> \<not> isB64NotHex c"
  by (auto simp: isHexChar_def isB64NotHex_def less_eq_char_def)

lemma isB64Char_neq:
  assumes "isB64Char c"
  shows "c \<noteq> CHR ''%''" "c \<noteq> CHR ''=''" "c \<noteq> CHR 0x5C" "c \<noteq> CHR 0x0A" "\<not> isWhitespace c"
  using assms by (auto simp: isB64Char_def isWhitespace_def less_eq_char_def)

lemma isHexChar_neq:
  assumes "isHexChar c"
  shows "c \<noteq> CHR ''%''" "c \<noteq> CHR ''=''" "c \<noteq> CHR 0x5C" "c \<noteq> CHR 0x0A" "\<not> isWhitespace c"
    "c \<noteq> CHR ''U''" "c \<noteq> CHR ''+''" "c \<noteq> CHR ''u''"
  using assms by (auto simp: isHexChar_def isWhitespace_def less_eq_char_def)

lemma isWhitespace_neq:
  assumes "isWhitespace c"
  shows "c \<noteq> CHR ''%''" "c \<noteq> CHR ''=''" "c \<noteq> CHR 0x5C" "c \<noteq> CHR ''U''"
  using assms by (auto simp: isWhitespace_def)

lemma runLoop_takeWhile:
  "i \<le> length data \<Longrightarrow>
   runLoop data i h =
     (i + length (takeWhile isB64Char (drop i data)),
      h \<and> (\<forall>c \<in> set (takeWhile isB64Char (drop i data)). \<not> isB64NotHex c))"
proof (induction data i h rule: runLoop.induct)
  case (1 data i h)
  show ?case
  proof (cases "i < length data \<and> isB64Char (data ! i)")
    case True
    then have d: "drop i data = data ! i # drop (i + 1) data"
      by (simp add: Cons_nth_drop_Suc)
    from True have "runLoop data i h =
        runLoop data (i + 1) (if isB64NotHex (data ! i) then False else h)"
      by (subst runLoop.simps) simp
    also have "\<dots> = (i + 1 + length (takeWhile isB64Char (drop (i + 1) data)),
        (if isB64NotHex (data ! i) then False else h) \<and>
        (\<forall>c \<in> set (takeWhile isB64Char (drop (i + 1) data)). \<not> isB64NotHex c))"
      using True by (intro "1.IH") auto
    finally show ?thesis using True by (auto simp: d)
  next
    case False
    then have "takeWhile isB64Char (drop i data) = []"
      using "1.prems" by (cases "i < length data") (auto simp: Cons_nth_drop_Suc [symmetric])
    moreover from False have "runLoop data i h = (i, h)"
      by (subst runLoop.simps) auto
    ultimately show ?thesis by simp
  qed
qed

lemma paddingLoop_eq:
  "e \<le> length data \<Longrightarrow>
   paddingLoop data c e =
     e + min (2 - c) (length (takeWhile (\<lambda>x. x = CHR ''='') (drop e data)))"
proof (induction data c e rule: paddingLoop.induct)
  case (1 data c e)
  show ?case
  proof (cases "c < 2 \<and> e < length data \<and> data ! e = CHR ''=''")
    case True
    then have d: "drop e data = CHR ''='' # drop (e + 1) data"
      by (metis Cons_nth_drop_Suc Suc_eq_plus1)
    from True have "paddingLoop data c e = paddingLoop data (c + 1) (e + 1)"
      by (subst paddingLoop.simps) simp
    also have "\<dots> = e + 1 + min (2 - (c + 1))
        (length (takeWhile (\<lambda>x. x = CHR ''='') (drop (e + 1) data)))"
      using True by (intro "1.IH") auto
    finally show ?thesis using True by (auto simp: d)
  next
    case False
    then have "c \<ge> 2 \<or> takeWhile (\<lambda>x. x = CHR ''='') (drop e data) = []"
      using "1.prems" by (cases "e < length data") (auto simp: Cons_nth_drop_Suc [symmetric])
    moreover from False have "paddingLoop data c e = e"
      by (subst paddingLoop.simps) auto
    ultimately show ?thesis by auto
  qed
qed

lemma scanStep_run:
  assumes "i < length data" and "isB64Char (data ! i)"
    and "\<not> (codePointAt data i \<and> endsGroup data (i + 6))"
  shows "scanStep data i =
    (let r = takeWhile isB64Char (drop i data);
         pad = min 2 (length (takeWhile (\<lambda>x. x = CHR ''='') (drop (i + length r) data)))
     in (if list_all isHexChar r \<and> length r \<ge> 32 then [newMatch 2 i (i + length r)]
         else if length r \<ge> 16 then [newMatch 3 i (i + length r + pad)]
         else [],
         i + length r))"
proof -
  let ?r = "takeWhile isB64Char (drop i data)"
  let ?r' = "takeWhile isB64Char (drop (i + 1) data)"
  have d: "drop i data = data ! i # drop (i + 1) data"
    using assms(1) by (simp add: Cons_nth_drop_Suc)
  have r: "?r = data ! i # ?r'" using assms(2) by (simp add: d)
  have len: "i + length ?r \<le> length data"
    using length_takeWhile_le [of isB64Char "drop i data"] assms(1) by simp
  have b64: "\<forall>c \<in> set ?r. isB64Char c" by (auto dest: set_takeWhileD)
  have hex: "(\<not> isB64NotHex (data ! i) \<and> (\<forall>c \<in> set ?r'. \<not> isB64NotHex c))
      \<longleftrightarrow> list_all isHexChar ?r"
    using b64 unfolding r by (auto simp: list_all_iff isB64Char_split dest: isHexChar_not_nothex)
  have run: "runLoop data (Suc i) (\<not> isB64NotHex (data ! i)) =
      (i + length ?r, list_all isHexChar ?r)"
    using assms(1) runLoop_takeWhile [of "i + 1" data "\<not> isB64NotHex (data ! i)"] hex
    by (simp add: r)
  have pad: "paddingLoop data 0 (i + length ?r) = i + length ?r +
      min 2 (length (takeWhile (\<lambda>x. x = CHR ''='') (drop (i + length ?r) data)))"
    using paddingLoop_eq [OF len, of 0] by simp
  have no: "\<not> percentAt data i" "\<not> doubleEscapeAt 7 data i" "\<not> singleEscapeAt data i"
    using isB64Char_neq [OF assms(2)]
    by (auto simp: percentAt_def doubleEscapeAt_def singleEscapeAt_def)
  show ?thesis
    unfolding scanStep_def using no assms(2,3)
    by (cases "codePointAt data i") (simp_all add: run pad Let_def)
qed

lemma scanStep_other:
  assumes "data ! i \<noteq> CHR ''%''" "data ! i \<noteq> CHR ''U''" "data ! i \<noteq> CHR 0x5C"
    "\<not> isB64Char (data ! i)"
  shows "scanStep data i = ([], i + 1)"
  using assms
  by (simp add: scanStep_def percentAt_def codePointAt_def doubleEscapeAt_def
      singleEscapeAt_def)

lemma scanLoop_padding:
  "(\<forall>k. i \<le> k \<and> k < length data \<longrightarrow> data ! k = CHR ''='') \<Longrightarrow> scanLoop data i acc = acc"
proof (induction data i acc rule: scanLoop.induct)
  case (1 data i acc)
  show ?case
  proof (cases "i < length data")
    case True
    with "1.prems" have "data ! i = CHR ''=''" by simp
    then have st: "scanStep data i = ([], i + 1)"
      by (intro scanStep_other) (simp_all add: isB64Char_def)
    have "scanLoop data i acc = scanLoop data (i + 1) (acc @ [])"
      using True st by (subst scanLoop.simps) simp
    also have "\<dots> = acc @ []"
      using True st "1.prems" by (intro "1.IH" [OF True]) auto
    finally show ?thesis by simp
  next
    case False
    then show ?thesis by (subst scanLoop.simps) simp
  qed
qed

lemma findEncodingMatches_small:
  "length (scanLoop data 0 []) \<le> 1 \<Longrightarrow> findEncodingMatches ov data = scanLoop data 0 []"
  by (cases "data = []") (auto simp: findEncodingMatches_def Let_def scanLoop.simps [of "[]"])

lemma isolated_run:
  assumes "run \<noteq> []" and "list_all isB64Char run"
  shows "findEncodingMatches ov (run @ replicate k CHR ''='') =
    (if k = 0 \<and> length run = 6 \<and> codePointAt run 0 then [newMatch 1 0 6]
     else if list_all isHexChar run \<and> length run \<ge> 32 then [newMatch 2 0 (length run)]
     else if length run \<ge> 16 then [newMatch 3 0 (length run + min 2 k)]
     else [])"
proof -
  let ?data = "run @ replicate k CHR ''=''"
  have b64: "\<forall>c \<in> set run. isB64Char c" using assms(2) by (simp add: list_all_iff)
  have tw: "takeWhile isB64Char ?data = run"
    using b64 by (simp add: takeWhile_append2 isB64Char_def takeWhile_replicate)
  have pos: "0 < length ?data" using assms(1) by simp
  have hd: "isB64Char (?data ! 0)"
    using assms(1) b64 by (cases run) auto
  have tail: "\<forall>j. length run \<le> j \<and> j < length ?data \<longrightarrow> ?data ! j = CHR ''=''"
    by (auto simp: nth_append)
  show ?thesis
  proof (cases "codePointAt ?data 0 \<and> endsGroup ?data 6")
    case True
    then have six: "?data ! 0 = CHR ''U''" "5 < length ?data" "isHexChar (?data ! 5)"
      and eg: "endsGroup ?data 6"
      by (auto simp: codePointAt_def)
    have le: "length run \<le> 6"
    proof (rule ccontr)
      assume "\<not> length run \<le> 6"
      then have "6 < length run" by simp
      then have "isB64Char (?data ! 6)" "6 < length ?data"
        using b64 by (auto simp: nth_append)
      with eg show False by (auto simp: endsGroup_def dest: isB64Char_neq)
    qed
    have ge: "6 \<le> length run"
    proof (rule ccontr)
      assume "\<not> 6 \<le> length run"
      then have "?data ! 5 = CHR ''=''" using six(2) by (auto simp: nth_append)
      with six(3) show False by (auto dest: isHexChar_neq)
    qed
    have k0: "k = 0"
    proof (rule ccontr)
      assume "k \<noteq> 0"
      then have "?data ! 6 = CHR ''=''" "6 < length ?data" using le ge by (auto simp: nth_append)
      with eg show False by (auto simp: endsGroup_def isWhitespace_def)
    qed
    have data: "?data = run" using k0 by simp
    have cp: "codePointAt run 0" using True data by simp
    have "codePointLoop run 6 6 = 6"
      using le ge by (subst codePointLoop.simps) simp
    then have st: "scanStep run 0 = ([newMatch 1 0 6], 6)"
      using True data six(1) by (simp add: scanStep_def percentAt_def)
    have "scanLoop run 0 [] = scanLoop run 6 [newMatch 1 0 6]"
      using st le ge by (subst scanLoop.simps) simp
    also have "\<dots> = [newMatch 1 0 6]" using le by (subst scanLoop.simps) simp
    finally have "scanLoop run 0 [] = [newMatch 1 0 6]" .
    then have "findEncodingMatches ov run = [newMatch 1 0 6]"
      by (simp add: findEncodingMatches_small)
    then show ?thesis using k0 le ge cp by simp
  next
    case False
    let ?ms = "if list_all isHexChar run \<and> length run \<ge> 32 then [newMatch 2 0 (length run)]
       else if length run \<ge> 16 then [newMatch 3 0 (length run + min 2 k)] else []"
    have st: "scanStep ?data 0 = (?ms, length run)"
      using scanStep_run [OF pos hd] False
      by (simp add: tw Let_def takeWhile_replicate)
    have "scanLoop ?data 0 [] = scanLoop ?data (length run) ?ms"
      using st pos by (subst scanLoop.simps) simp
    also have "\<dots> = ?ms" using tail by (rule scanLoop_padding)
    finally have all: "scanLoop ?data 0 [] = ?ms" .
    then have "findEncodingMatches ov ?data = ?ms"
      by (simp add: findEncodingMatches_small)
    moreover have "\<not> (k = 0 \<and> length run = 6 \<and> codePointAt run 0)"
      using False by (auto simp: endsGroup_def)
    ultimately show ?thesis by simp
  qed
qed


section \<open>One iteration of the main loop\<close>

lemma newMatch_simps [simp]:
  "start (startEnd (newMatch k s e)) = s"
  "end_pos (startEnd (newMatch k s e)) = e"
  "encoding (newMatch k s e) = encodings ! k"
  by (simp_all add: newMatch_def)

lemma encodings_nth [simp]:
  "kind (encodings ! 0) = percentKind" "kind (encodings ! Suc 0) = unicodeKind"
  "kind (encodings ! 1) = unicodeKind"
  "kind (encodings ! 2) = hexKind" "kind (encodings ! 3) = base64Kind"
  "precedence (encodings ! 0) = 4" "precedence (encodings ! Suc 0) = 3"
  "precedence (encodings ! 1) = 3"
  "precedence (encodings ! 2) = 2" "precedence (encodings ! 3) = 1"
  by (simp_all add: encodings_def numeral_2_eq_2 numeral_3_eq_3)

lemma scanStep_cases [case_names percent codePoint double single run other]:
  assumes "percentAt data i \<Longrightarrow>
      scanStep data i = ([newMatch 0 i (percentLoop data (i + 3) (i + 3))],
        percentLoop data (i + 3) (i + 3)) \<Longrightarrow> P"
    and "\<not> percentAt data i \<Longrightarrow> codePointAt data i \<Longrightarrow> endsGroup data (i + 6) \<Longrightarrow>
      scanStep data i = ([newMatch 1 i (codePointLoop data (i + 6) (i + 6))],
        codePointLoop data (i + 6) (i + 6)) \<Longrightarrow> P"
    and "\<not> percentAt data i \<Longrightarrow> \<not> (codePointAt data i \<and> endsGroup data (i + 6)) \<Longrightarrow>
      doubleEscapeAt 7 data i \<Longrightarrow>
      scanStep data i = ([newMatch 1 i (escapeLoop data (i + 7) (i + 7))],
        escapeLoop data (i + 7) (i + 7)) \<Longrightarrow> P"
    and "\<not> percentAt data i \<Longrightarrow> \<not> (codePointAt data i \<and> endsGroup data (i + 6)) \<Longrightarrow>
      \<not> doubleEscapeAt 7 data i \<Longrightarrow> singleEscapeAt data i \<Longrightarrow>
      scanStep data i = ([newMatch 1 i (escapeLoop data (i + 6) (i + 6))],
        escapeLoop data (i + 6) (i + 6)) \<Longrightarrow> P"
    and "\<not> percentAt data i \<Longrightarrow> \<not> (codePointAt data i \<and> endsGroup data (i + 6)) \<Longrightarrow>
      \<not> doubleEscapeAt 7 data i \<Longrightarrow> \<not> singleEscapeAt data i \<Longrightarrow>
      isB64Char (data ! i) \<Longrightarrow> P"
    and "\<not> percentAt data i \<Longrightarrow> \<not> (codePointAt data i \<and> endsGroup data (i + 6)) \<Longrightarrow>
      \<not> doubleEscapeAt 7 data i \<Longrightarrow> \<not> singleEscapeAt data i \<Longrightarrow>
      \<not> isB64Char (data ! i) \<Longrightarrow> scanStep data i = ([], i + 1) \<Longrightarrow> P"
  shows P
proof -
  consider "percentAt data i"
    | "\<not> percentAt data i" "codePointAt data i \<and> endsGroup data (i + 6)"
    | "\<not> percentAt data i" "\<not> (codePointAt data i \<and> endsGroup data (i + 6))"
      "doubleEscapeAt 7 data i"
    | "\<not> percentAt data i" "\<not> (codePointAt data i \<and> endsGroup data (i + 6))"
      "\<not> doubleEscapeAt 7 data i" "singleEscapeAt data i"
    | "\<not> percentAt data i" "\<not> (codePointAt data i \<and> endsGroup data (i + 6))"
      "\<not> doubleEscapeAt 7 data i" "\<not> singleEscapeAt data i" "isB64Char (data ! i)"
    | "\<not> percentAt data i" "\<not> (codePointAt data i \<and> endsGroup data (i + 6))"
      "\<not> doubleEscapeAt 7 data i" "\<not> singleEscapeAt data i" "\<not> isB64Char (data ! i)"
    by blast
  then show P
  proof cases
    case 1
    then have "scanStep data i = ([newMatch 0 i (percentLoop data (i + 3) (i + 3))],
        percentLoop data (i + 3) (i + 3))"
      by (simp add: scanStep_def Let_def)
    with 1 show ?thesis by (rule assms(1))
  next
    case 2
    then have "scanStep data i = ([newMatch 1 i (codePointLoop data (i + 6) (i + 6))],
        codePointLoop data (i + 6) (i + 6))"
      by (simp add: scanStep_def Let_def)
    with 2 show ?thesis using assms(2) by blast
  next
    case 3
    then have "scanStep data i = ([newMatch 1 i (escapeLoop data (i + 7) (i + 7))],
        escapeLoop data (i + 7) (i + 7))"
      by (cases "codePointAt data i") (simp_all add: scanStep_def Let_def)
    with 3 show ?thesis using assms(3) by blast
  next
    case 4
    then have "scanStep data i = ([newMatch 1 i (escapeLoop data (i + 6) (i + 6))],
        escapeLoop data (i + 6) (i + 6))"
      by (cases "codePointAt data i") (simp_all add: scanStep_def Let_def)
    with 4 show ?thesis using assms(4) by blast
  next
    case 5
    then show ?thesis using assms(5) by blast
  next
    case 6
    then have "scanStep data i = ([], i + 1)"
      by (cases "codePointAt data i") (simp_all add: scanStep_def Let_def)
    with 6 show ?thesis using assms(6) by blast
  qed
qed

lemma paddingLoop_region:
  assumes "e \<le> k" and "k < e + min 2 (length (takeWhile (\<lambda>x. x = CHR ''='') (drop e data)))"
  shows "data ! k = CHR ''=''"
proof -
  let ?t = "takeWhile (\<lambda>x. x = CHR ''='') (drop e data)"
  from assms have lt: "k - e < length ?t" by simp
  then have "?t ! (k - e) \<in> set ?t" by simp
  then have "?t ! (k - e) = CHR ''=''" by (auto dest: set_takeWhileD)
  moreover have "?t ! (k - e) = drop e data ! (k - e)" using lt by (rule takeWhile_nth)
  moreover have "e + (k - e) < length data"
    using lt length_takeWhile_le [of "\<lambda>x. x = CHR ''=''" "drop e data"] by simp
  ultimately show ?thesis using assms(1) by simp
qed

text \<open>What an iteration emits.\<close>

lemma scanStep_emits:
  assumes "i < length data" and "scanStep data i = (ms, i')" and "m \<in> set ms"
  shows "ms = [m]" and "start (startEnd m) = i" and "i < end_pos (startEnd m)"
    and "data ! i \<noteq> CHR ''=''"
    and "\<forall>k. i' \<le> k \<and> k < end_pos (startEnd m) \<longrightarrow> data ! k = CHR ''=''"
    and "encoding m \<in> set encodings"
proof -
  have "ms = [m] \<and> start (startEnd m) = i \<and> i < end_pos (startEnd m) \<and> data ! i \<noteq> CHR ''=''
    \<and> (\<forall>k. i' \<le> k \<and> k < end_pos (startEnd m) \<longrightarrow> data ! k = CHR ''='')
    \<and> encoding m \<in> set encodings"
  proof (cases rule: scanStep_cases [of data i])
    case percent
    have "i + 3 \<le> percentLoop data (i + 3) (i + 3)" by (rule percentLoop_ge) simp
    with percent assms show ?thesis by (auto simp: percentAt_def encodings_def)
  next
    case codePoint
    have "i + 6 \<le> codePointLoop data (i + 6) (i + 6)" by (rule codePointLoop_ge) simp
    with codePoint assms show ?thesis by (auto simp: codePointAt_def encodings_def)
  next
    case double
    have "i + 7 \<le> escapeLoop data (i + 7) (i + 7)" by (rule escapeLoop_ge) simp
    with double assms show ?thesis by (auto simp: doubleEscapeAt_def encodings_def)
  next
    case single
    have "i + 6 \<le> escapeLoop data (i + 6) (i + 6)" by (rule escapeLoop_ge) simp
    with single assms show ?thesis by (auto simp: singleEscapeAt_def encodings_def)
  next
    case run
    let ?r = "takeWhile isB64Char (drop i data)"
    let ?pad = "min 2 (length (takeWhile (\<lambda>x. x = CHR ''='') (drop (i + length ?r) data)))"
    have st: "scanStep data i =
      (if list_all isHexChar ?r \<and> length ?r \<ge> 32 then [newMatch 2 i (i + length ?r)]
       else if length ?r \<ge> 16 then [newMatch 3 i (i + length ?r + ?pad)] else [],
       i + length ?r)"
      using scanStep_run [OF assms(1) run(5) run(2)] by (simp add: Let_def)
    have eq: "\<forall>k. i + length ?r \<le> k \<and> k < i + length ?r + ?pad \<longrightarrow> data ! k = CHR ''=''"
      using paddingLoop_region by blast
    from st assms(2) have i': "i' = i + length ?r" by simp
    from st assms(2,3) consider
        "m = newMatch 2 i (i + length ?r)" "ms = [m]" "length ?r \<ge> 32"
      | "m = newMatch 3 i (i + length ?r + ?pad)" "ms = [m]" "length ?r \<ge> 16"
      by (auto split: if_splits)
    then show ?thesis
    proof cases
      case 1
      then show ?thesis using run(5) i' by (auto simp: encodings_def dest: isB64Char_neq)
    next
      case 2
      then show ?thesis using run(5) i' eq by (auto simp: encodings_def dest: isB64Char_neq)
    qed
  next
    case other
    with assms show ?thesis by simp
  qed
  then show "ms = [m]" and "start (startEnd m) = i" and "i < end_pos (startEnd m)"
    and "data ! i \<noteq> CHR ''=''"
    and "\<forall>k. i' \<le> k \<and> k < end_pos (startEnd m) \<longrightarrow> data ! k = CHR ''=''"
    and "encoding m \<in> set encodings"
    by blast+
qed


section \<open>Invariants of the scan and the filter\<close>

lemma scanLoop_invariant:
  fixes I :: "nat \<Rightarrow> encodingMatch list \<Rightarrow> bool"
  assumes step: "\<And>i acc ms i'. i < length data \<Longrightarrow> I i acc \<Longrightarrow> scanStep data i = (ms, i') \<Longrightarrow>
      I i' (acc @ ms)"
    and init: "I i acc"
  shows "\<exists>j. length data \<le> j \<and> I j (scanLoop data i acc)"
  using init
proof (induction "length data - i" arbitrary: i acc rule: less_induct)
  case less
  show ?case
  proof (cases "i < length data")
    case True
    obtain ms i' where st: "scanStep data i = (ms, i')" by (cases "scanStep data i")
    have "i < i'" using scanStep_advances [of i data] st by simp
    then have "length data - i' < length data - i" using True by simp
    moreover have "I i' (acc @ ms)" using True less.prems st by (rule step)
    ultimately have "\<exists>j. length data \<le> j \<and> I j (scanLoop data i' (acc @ ms))"
      by (rule less.hyps)
    moreover have "scanLoop data i acc = scanLoop data i' (acc @ ms)"
      using True st by (subst scanLoop.simps) simp
    ultimately show ?thesis by simp
  next
    case False
    then have "scanLoop data i acc = acc" by (subst scanLoop.simps) simp
    with False less.prems show ?thesis by (intro exI [of _ i]) simp
  qed
qed

lemma scanLoop_chain:
  "sorted_wrt (\<lambda>a b. end_pos (startEnd a) \<le> start (startEnd b)) (scanLoop data 0 []) \<and>
   (\<forall>m \<in> set (scanLoop data 0 []). start (startEnd m) < end_pos (startEnd m))"
proof -
  let ?R = "\<lambda>a b. end_pos (startEnd a) \<le> start (startEnd b)"
  let ?I = "\<lambda>i acc. sorted_wrt ?R acc \<and>
    (\<forall>m \<in> set acc. start (startEnd m) < end_pos (startEnd m) \<and>
       (\<forall>k. i \<le> k \<and> k < end_pos (startEnd m) \<longrightarrow> data ! k = CHR ''=''))"
  have "\<exists>j. length data \<le> j \<and> ?I j (scanLoop data 0 [])"
  proof (rule scanLoop_invariant)
    show "?I 0 []" by simp
  next
    fix i i' :: nat and acc ms :: "encodingMatch list"
    assume i: "i < length data" and inv: "?I i acc" and st: "scanStep data i = (ms, i')"
    have adv: "i < i'" using scanStep_advances [of i data] st by simp
    show "?I i' (acc @ ms)"
    proof (cases "ms = []")
      case True
      with inv adv show ?thesis by auto
    next
      case False
      then obtain m where m: "m \<in> set ms" by (cases ms) auto
      note e = scanStep_emits [OF i st m]
      have before: "end_pos (startEnd a) \<le> start (startEnd m)" if "a \<in> set acc" for a
      proof (rule ccontr)
        assume "\<not> ?thesis"
        then have "i < end_pos (startEnd a)" using e(2) by simp
        with that inv have "data ! i = CHR ''=''" by auto
        with e(4) show False by simp
      qed
      have "sorted_wrt ?R (acc @ [m])"
        using inv before by (simp add: sorted_wrt_append)
      moreover have "\<forall>a \<in> set acc. \<forall>k. i' \<le> k \<and> k < end_pos (startEnd a) \<longrightarrow> data ! k = CHR ''=''"
        using inv adv by auto
      ultimately show ?thesis using e(1,2,3,5) inv by auto
    qed
  qed
  then show ?thesis by blast
qed

lemma filterLoop_eq:
  "filterLoop ov all i acc =
     acc @ map ((!) all) (filter (\<lambda>i. \<not> losesToNeighbour ov all i) [i..<length all])"
proof (induction "length all - i" arbitrary: i acc)
  case 0
  then show ?case by (subst filterLoop.simps) simp
next
  case (Suc n)
  then have i: "i < length all" and n: "n = length all - (i + 1)" by simp_all
  have upt: "[i..<length all] = i # [i + 1..<length all]"
    using i by (simp add: upt_conv_Cons)
  show ?case
  proof (cases "losesToNeighbour ov all i")
    case True
    then have "filterLoop ov all i acc = filterLoop ov all (i + 1) acc"
      using i by (subst filterLoop.simps) (auto simp: losesToNeighbour_def Let_def)
    then show ?thesis using True Suc.hyps(1) [OF n] by (simp add: upt)
  next
    case False
    then have "filterLoop ov all i acc = filterLoop ov all (i + 1) (acc @ [all ! i])"
      using i by (subst filterLoop.simps) (auto simp: losesToNeighbour_def Let_def)
    then show ?thesis using False Suc.hyps(1) [OF n] by (simp add: upt)
  qed
qed

lemma findEncodingMatches_eq:
  "findEncodingMatches ov data =
     map ((!) (scanLoop data 0 []))
       (filter (\<lambda>i. \<not> losesToNeighbour ov (scanLoop data 0 []) i)
          [0..<length (scanLoop data 0 [])])"
proof -
  let ?all = "scanLoop data 0 []"
  consider "?all = []" | m where "?all = [m]" | "1 < length ?all"
    by (cases ?all rule: list.exhaust; cases "tl ?all") auto
  then show ?thesis
  proof cases
    case 1
    then show ?thesis by (simp add: findEncodingMatches_small)
  next
    case 2
    then show ?thesis by (simp add: findEncodingMatches_small losesToNeighbour_def)
  next
    case 3
    then have "data \<noteq> []" by (auto simp: scanLoop.simps [of "[]"])
    with 3 show ?thesis
      by (simp add: findEncodingMatches_def Let_def filterLoop_eq)
  qed
qed

lemma sorted_wrt_map_nth_filter:
  assumes "sorted_wrt R xs"
  shows "sorted_wrt R (map ((!) xs) (filter P [0..<length xs]))"
proof -
  have "sorted_wrt (\<lambda>i j. R (xs ! i) (xs ! j)) [0..<length xs]"
    using assms by (simp add: sorted_wrt_iff_nth_less)
  then have "sorted_wrt (\<lambda>i j. R (xs ! i) (xs ! j)) (filter P [0..<length xs])"
    by (rule sorted_wrt_filter)
  then show ?thesis by (simp add: sorted_wrt_map)
qed

lemma findEncodingMatches_subset:
  "set (findEncodingMatches ov data) \<subseteq> set (scanLoop data 0 [])"
  by (subst findEncodingMatches_eq) auto

lemma findEncodingMatches_chain:
  "sorted_wrt (\<lambda>a b. end_pos (startEnd a) \<le> start (startEnd b)) (findEncodingMatches ov data)"
  by (subst findEncodingMatches_eq) (intro sorted_wrt_map_nth_filter conjunct1 [OF scanLoop_chain])


section \<open>The spans of the percent and the code-point rule\<close>

lemma percentLoop_step:
  "j < length data \<Longrightarrow> data ! j \<noteq> CHR 0x0A \<Longrightarrow>
   percentLoop data j e = percentLoop data (j + 1) (if percentAt data j then j + 3 else e)"
  by (subst percentLoop.simps) simp

lemma percentLoop_stop:
  "\<not> (j < length data \<and> data ! j \<noteq> CHR 0x0A) \<Longrightarrow> percentLoop data j e = e"
  by (subst percentLoop.simps) auto

lemma percentLoop_sound:
  "percentLoop data j e = e \<or>
   (\<exists>p. j \<le> p \<and> percentAt data p \<and> percentLoop data j e = p + 3 \<and>
      (\<forall>k. j \<le> k \<and> k \<le> p \<longrightarrow> data ! k \<noteq> CHR 0x0A))"
proof (induction data j e rule: percentLoop.induct)
  case (1 data j e)
  show ?case
  proof (cases "j < length data \<and> data ! j \<noteq> CHR 0x0A")
    case True
    let ?e = "if percentAt data j then j + 3 else e"
    have eq: "percentLoop data j e = percentLoop data (j + 1) ?e"
      using True by (simp add: percentLoop_step)
    from "1.IH" True consider "percentLoop data (j + 1) ?e = ?e"
      | p where "j + 1 \<le> p" "percentAt data p" "percentLoop data (j + 1) ?e = p + 3"
          "\<forall>k. j + 1 \<le> k \<and> k \<le> p \<longrightarrow> data ! k \<noteq> CHR 0x0A"
      by blast
    then show ?thesis
    proof cases
      case 1
      show ?thesis
      proof (cases "percentAt data j")
        case yes: True
        have "j \<le> j \<and> percentAt data j \<and> percentLoop data j e = j + 3 \<and>
          (\<forall>k. j \<le> k \<and> k \<le> j \<longrightarrow> data ! k \<noteq> CHR 0x0A)"
          using yes 1 eq True by auto
        then show ?thesis by blast
      next
        case False
        with 1 eq show ?thesis by simp
      qed
    next
      case 2
      have "\<forall>k. j \<le> k \<and> k \<le> p \<longrightarrow> data ! k \<noteq> CHR 0x0A"
      proof (intro allI impI)
        fix k assume "j \<le> k \<and> k \<le> p"
        then show "data ! k \<noteq> CHR 0x0A"
          using 2(4) True by (cases "k = j") auto
      qed
      moreover have "j \<le> p" using 2(1) by simp
      ultimately show ?thesis using 2(2,3) eq by auto
    qed
  next
    case False
    then show ?thesis by (simp add: percentLoop_stop)
  qed
qed

lemma percentLoop_complete:
  "j \<le> p \<Longrightarrow> percentAt data p \<Longrightarrow> (\<forall>k. j \<le> k \<and> k \<le> p \<longrightarrow> data ! k \<noteq> CHR 0x0A) \<Longrightarrow>
   p + 3 \<le> percentLoop data j e"
proof (induction data j e rule: percentLoop.induct)
  case (1 data j e)
  have jn: "j < length data" using "1.prems"(1,2) by (simp add: percentAt_def)
  have nl: "data ! j \<noteq> CHR 0x0A" using "1.prems"(1,3) by simp
  let ?e = "if percentAt data j then j + 3 else e"
  have eq: "percentLoop data j e = percentLoop data (j + 1) ?e"
    using jn nl by (simp add: percentLoop_step)
  show ?case
  proof (cases "p = j")
    case True
    then have "?e = p + 3" using "1.prems"(2) by simp
    moreover have "?e \<le> percentLoop data (j + 1) ?e"
      by (rule percentLoop_ge) (use "1.prems"(2) True in simp)
    ultimately show ?thesis using eq by simp
  next
    case False
    then have "j + 1 \<le> p" using "1.prems"(1) by simp
    moreover have "\<forall>k. j + 1 \<le> k \<and> k \<le> p \<longrightarrow> data ! k \<noteq> CHR 0x0A"
      using "1.prems"(3) by simp
    ultimately have "p + 3 \<le> percentLoop data (j + 1) ?e"
      using jn nl "1.prems"(2) "1.IH" by blast
    then show ?thesis using eq by simp
  qed
qed

lemma percent_branch_span:
  assumes "percentAt data i"
  shows "percentSpan data i (percentLoop data (i + 3) (i + 3))"
proof -
  let ?r = "percentLoop data (i + 3) (i + 3)"
  have ge: "i + 3 \<le> ?r" by (rule percentLoop_ge) simp
  have hx: "data ! i \<noteq> CHR 0x0A" "data ! (i + 1) \<noteq> CHR 0x0A" "data ! (i + 2) \<noteq> CHR 0x0A"
    using assms by (auto simp: percentAt_def dest: isHexChar_neq)
  have first: "\<forall>k. i \<le> k \<and> k < i + 3 \<longrightarrow> data ! k \<noteq> CHR 0x0A"
  proof (intro allI impI)
    fix k assume "i \<le> k \<and> k < i + 3"
    then have "k = i \<or> k = i + 1 \<or> k = i + 2" by arith
    with hx show "data ! k \<noteq> CHR 0x0A" by auto
  qed
  from percentLoop_sound [of data "i + 3" "i + 3"]
  have last: "percentAt data (?r - 3) \<and> (\<forall>k. i \<le> k \<and> k < ?r \<longrightarrow> data ! k \<noteq> CHR 0x0A)"
  proof
    assume "?r = i + 3"
    with assms first show ?thesis by simp
  next
    assume "\<exists>p. i + 3 \<le> p \<and> percentAt data p \<and> ?r = p + 3 \<and>
      (\<forall>k. i + 3 \<le> k \<and> k \<le> p \<longrightarrow> data ! k \<noteq> CHR 0x0A)"
    then obtain p where p: "i + 3 \<le> p" "percentAt data p" "?r = p + 3"
      "\<forall>k. i + 3 \<le> k \<and> k \<le> p \<longrightarrow> data ! k \<noteq> CHR 0x0A"
      by blast
    have px: "data ! (p + 1) \<noteq> CHR 0x0A" "data ! (p + 2) \<noteq> CHR 0x0A"
      using p(2) by (auto simp: percentAt_def dest: isHexChar_neq)
    have "\<forall>k. i \<le> k \<and> k < p + 3 \<longrightarrow> data ! k \<noteq> CHR 0x0A"
    proof (intro allI impI)
      fix k assume k: "i \<le> k \<and> k < p + 3"
      then consider "k < i + 3" | "i + 3 \<le> k" "k \<le> p" | "k = p + 1" | "k = p + 2" by arith
      then show "data ! k \<noteq> CHR 0x0A"
        using first p(4) px k by cases auto
    qed
    with p(2,3) show ?thesis by simp
  qed
  have none: "\<not> percentAt data q"
    if "?r \<le> q" and "\<forall>k \<in> {i..q}. data ! k \<noteq> CHR 0x0A" for q
  proof
    assume "percentAt data q"
    moreover have "i + 3 \<le> q" using ge that(1) by simp
    moreover have "\<forall>k. i + 3 \<le> k \<and> k \<le> q \<longrightarrow> data ! k \<noteq> CHR 0x0A" using that(2) by simp
    ultimately have "q + 3 \<le> ?r" by (intro percentLoop_complete)
    with that(1) show False by simp
  qed
  show ?thesis
    unfolding percentSpan_def using assms ge last none by auto
qed

lemma skipWhitespace_step:
  "ws < length data \<Longrightarrow> isWhitespace (data ! ws) \<Longrightarrow>
   skipWhitespace data ws = skipWhitespace data (ws + 1)"
  by (subst skipWhitespace.simps) simp

lemma skipWhitespace_stop:
  "\<not> (ws < length data \<and> isWhitespace (data ! ws)) \<Longrightarrow> skipWhitespace data ws = ws"
  by (subst skipWhitespace.simps) auto

lemma skipWhitespace_region:
  "j \<le> k \<Longrightarrow> k < skipWhitespace data j \<Longrightarrow> isWhitespace (data ! k) \<and> k < length data"
proof (induction data j rule: skipWhitespace.induct)
  case (1 data ws)
  show ?case
  proof (cases "ws < length data \<and> isWhitespace (data ! ws)")
    case True
    then have eq: "skipWhitespace data ws = skipWhitespace data (ws + 1)"
      by (simp add: skipWhitespace_step)
    show ?thesis
    proof (cases "k = ws")
      case True
      with \<open>ws < length data \<and> isWhitespace (data ! ws)\<close> show ?thesis by simp
    next
      case False
      with "1.prems" have "ws + 1 \<le> k" by simp
      moreover have "k < skipWhitespace data (ws + 1)" using "1.prems"(2) eq by simp
      ultimately show ?thesis using "1.IH" True by blast
    qed
  next
    case False
    then have "skipWhitespace data ws = ws" by (rule skipWhitespace_stop)
    with "1.prems" show ?thesis by simp
  qed
qed

lemma skipWhitespace_end:
  "length data \<le> skipWhitespace data j \<or> \<not> isWhitespace (data ! skipWhitespace data j)"
proof (induction data j rule: skipWhitespace.induct)
  case (1 data ws)
  show ?case
  proof (cases "ws < length data \<and> isWhitespace (data ! ws)")
    case True
    then have "skipWhitespace data ws = skipWhitespace data (ws + 1)"
      by (simp add: skipWhitespace_step)
    with "1.IH" True show ?thesis by simp
  next
    case False
    then have "skipWhitespace data ws = ws" by (rule skipWhitespace_stop)
    with False show ?thesis by auto
  qed
qed


lemma codePointLoop_step:
  "j < length data \<Longrightarrow> isWhitespace (data ! j) \<Longrightarrow> qualifies data (skipWhitespace data j) \<Longrightarrow>
   codePointLoop data j e =
     codePointLoop data (skipWhitespace data j + 6) (skipWhitespace data j + 6)"
  by (subst codePointLoop.simps) (simp add: Let_def qualifies_def)

lemma codePointLoop_stop:
  "\<not> (j < length data \<and> isWhitespace (data ! j) \<and> qualifies data (skipWhitespace data j)) \<Longrightarrow>
   codePointLoop data j e = e"
  by (subst codePointLoop.simps) (auto simp: Let_def qualifies_def)

text \<open>The span the merging loop adds: whitespace and qualifying groups, ending in a group.\<close>

lemma codePointLoop_span:
  "e = j \<Longrightarrow>
   (codePointLoop data j e = j \<or>
      (j + 7 \<le> codePointLoop data j e \<and> qualifies data (codePointLoop data j e - 6))) \<and>
   (\<forall>k. j \<le> k \<and> k < codePointLoop data j e \<longrightarrow>
      isWhitespace (data ! k) \<or>
      (\<exists>g. j \<le> g \<and> g \<le> k \<and> k < g + 6 \<and> g + 6 \<le> codePointLoop data j e \<and> qualifies data g)) \<and>
   \<not> (codePointLoop data j e < length data \<and> isWhitespace (data ! codePointLoop data j e) \<and>
      qualifies data (skipWhitespace data (codePointLoop data j e)))"
proof (induction data j e rule: codePointLoop.induct)
  case (1 data j e)
  let ?w = "skipWhitespace data j"
  show ?case
  proof (cases "j < length data \<and> isWhitespace (data ! j) \<and> qualifies data ?w")
    case True
    let ?r = "codePointLoop data (?w + 6) (?w + 6)"
    have eq: "codePointLoop data j e = ?r" using True by (simp add: codePointLoop_step)
    have jw: "j < ?w"
    proof -
      have "j \<le> ?w" by (rule skipWhitespace_ge)
      moreover have "?w \<noteq> j" using True skipWhitespace_end [of data j] by auto
      ultimately show ?thesis by simp
    qed
    have ge: "?w + 6 \<le> ?r" by (rule codePointLoop_ge) simp
    have IH: "(?r = ?w + 6 \<or> (?w + 6 + 7 \<le> ?r \<and> qualifies data (?r - 6))) \<and>
      (\<forall>k. ?w + 6 \<le> k \<and> k < ?r \<longrightarrow> isWhitespace (data ! k) \<or>
        (\<exists>g. ?w + 6 \<le> g \<and> g \<le> k \<and> k < g + 6 \<and> g + 6 \<le> ?r \<and> qualifies data g)) \<and>
      \<not> (?r < length data \<and> isWhitespace (data ! ?r) \<and> qualifies data (skipWhitespace data ?r))"
      using True "1.IH" [of ?w] by (simp add: qualifies_def)
    have a: "j + 7 \<le> ?r \<and> qualifies data (?r - 6)"
      using IH True jw ge by auto
    have b: "isWhitespace (data ! k) \<or>
        (\<exists>g. j \<le> g \<and> g \<le> k \<and> k < g + 6 \<and> g + 6 \<le> ?r \<and> qualifies data g)"
      if k: "j \<le> k \<and> k < ?r" for k
    proof -
      consider "k < ?w" | "?w \<le> k" "k < ?w + 6" | "?w + 6 \<le> k" by arith
      then show ?thesis
      proof cases
        case 1
        then show ?thesis using k skipWhitespace_region [of j k data] by simp
      next
        case 2
        then have "j \<le> ?w \<and> ?w \<le> k \<and> k < ?w + 6 \<and> ?w + 6 \<le> ?r \<and> qualifies data ?w"
          using jw ge True by simp
        then show ?thesis by blast
      next
        case 3
        with IH k consider "isWhitespace (data ! k)"
          | g where "?w + 6 \<le> g" "g \<le> k" "k < g + 6" "g + 6 \<le> ?r" "qualifies data g"
          by blast
        then show ?thesis
        proof cases
          case 1
          then show ?thesis by simp
        next
          case 2
          then have "j \<le> g \<and> g \<le> k \<and> k < g + 6 \<and> g + 6 \<le> ?r \<and> qualifies data g"
            using jw by simp
          then show ?thesis by blast
        qed
      qed
    qed
    show ?thesis unfolding eq using a b IH by blast
  next
    case False
    then have "codePointLoop data j e = j" using "1.prems" by (simp add: codePointLoop_stop)
    with False show ?thesis by auto
  qed
qed

lemma qualifies_chars:
  assumes "qualifies data g" and "g \<le> k" and "k < g + 6"
  shows "isB64Char (data ! k)"
proof -
  from assms(2,3) have "k = g \<or> k = g + 1 \<or> k = g + 2 \<or> k = g + 3 \<or> k = g + 4 \<or> k = g + 5"
    by arith
  moreover have "isB64Char CHR ''U''" "isB64Char CHR ''+''" by (simp_all add: isB64Char_def)
  ultimately show ?thesis
    using assms(1) by (auto simp: qualifies_def codePointAt_def dest: isHexChar_b64)
qed

lemma codePointLoop_chars:
  assumes "j \<le> k" and "k < codePointLoop data j j"
  shows "isWhitespace (data ! k) \<or> isB64Char (data ! k)"
  using codePointLoop_span [of j j data] assms qualifies_chars by blast

lemma doubleEscape_chars:
  assumes "doubleEscapeAt b data j" and "j \<le> k" and "k < j + 7"
  shows "data ! k = CHR 0x5C \<or> isB64Char (data ! k)"
proof -
  from assms(2,3) have "k = j \<or> k = j + 1 \<or> k = j + 2 \<or> k = j + 3 \<or> k = j + 4
      \<or> k = j + 5 \<or> k = j + 6" by arith
  moreover have "isB64Char CHR ''u''" "isB64Char CHR ''U''" by (simp_all add: isB64Char_def)
  ultimately show ?thesis
    using assms(1) by (auto simp: doubleEscapeAt_def dest: isHexChar_b64)
qed

lemma singleEscape_chars:
  assumes "singleEscapeAt data j" and "j \<le> k" and "k < j + 6"
  shows "data ! k = CHR 0x5C \<or> isB64Char (data ! k)"
proof -
  from assms(2,3) have "k = j \<or> k = j + 1 \<or> k = j + 2 \<or> k = j + 3 \<or> k = j + 4
      \<or> k = j + 5" by arith
  moreover have "isB64Char CHR ''u''" "isB64Char CHR ''U''" by (simp_all add: isB64Char_def)
  ultimately show ?thesis
    using assms(1) by (auto simp: singleEscapeAt_def dest: isHexChar_b64)
qed

lemma escapeLoop_chars:
  "j \<le> k \<Longrightarrow> k < escapeLoop data j e \<Longrightarrow> e \<le> j \<Longrightarrow>
   data ! k = CHR 0x5C \<or> isB64Char (data ! k)"
proof (induction data j e rule: escapeLoop.induct)
  case (1 data j e)
  consider (dbl) "j < length data" "doubleEscapeAt 6 data j"
    | (sgl) "j < length data" "\<not> doubleEscapeAt 6 data j" "singleEscapeAt data j"
    | (stop) "\<not> (j < length data \<and> (doubleEscapeAt 6 data j \<or> singleEscapeAt data j))"
    by blast
  then show ?case
  proof cases
    case dbl
    then have eq: "escapeLoop data j e = escapeLoop data (j + 7) (j + 7)"
      by (subst escapeLoop.simps) simp
    show ?thesis
    proof (cases "k < j + 7")
      case True
      with dbl(2) "1.prems"(1) show ?thesis by (intro doubleEscape_chars)
    next
      case False
      then show ?thesis using "1.IH"(1) [OF dbl] "1.prems"(2) eq by simp
    qed
  next
    case sgl
    then have eq: "escapeLoop data j e = escapeLoop data (j + 6) (j + 6)"
      by (subst escapeLoop.simps) simp
    show ?thesis
    proof (cases "k < j + 6")
      case True
      with sgl(3) "1.prems"(1) show ?thesis by (intro singleEscape_chars)
    next
      case False
      then show ?thesis using "1.IH"(2) [OF sgl] "1.prems"(2) eq by simp
    qed
  next
    case stop
    then have "escapeLoop data j e = e" by (subst escapeLoop.simps) auto
    with "1.prems" show ?thesis by simp
  qed
qed

lemma scanLoop_emitted:
  assumes "m \<in> set (scanLoop data 0 [])"
  shows "\<exists>i < length data. m \<in> set (fst (scanStep data i))"
proof -
  let ?I = "\<lambda>(i::nat) acc. \<forall>m \<in> set acc. \<exists>i < length data. m \<in> set (fst (scanStep data i))"
  have "\<exists>j. length data \<le> j \<and> ?I j (scanLoop data 0 [])"
  proof (rule scanLoop_invariant)
    show "?I 0 []" by simp
  next
    fix i i' :: nat and acc ms :: "encodingMatch list"
    assume "i < length data" and "?I i acc" and "scanStep data i = (ms, i')"
    then show "?I i' (acc @ ms)" by force
  qed
  with assms show ?thesis by blast
qed

lemma scanStep_skips_no_percent:
  assumes "i < length data" and "scanStep data i = (ms, i')" and "i \<le> p" and "p < i'"
    and "percentAt data p"
  shows "percentAt data i"
proof (rule ccontr)
  assume no: "\<not> percentAt data i"
  have pc: "data ! p = CHR ''%''" using assms(5) by (simp add: percentAt_def)
  have "data ! p \<noteq> CHR ''%''"
  proof (cases rule: scanStep_cases [of data i])
    case percent
    with no show ?thesis by simp
  next
    case codePoint
    then have q: "qualifies data i" by (simp add: qualifies_def)
    from codePoint assms(2) have i': "i' = codePointLoop data (i + 6) (i + 6)" by simp
    show ?thesis
    proof (cases "p < i + 6")
      case True
      then show ?thesis using qualifies_chars [OF q assms(3)] by (auto dest: isB64Char_neq)
    next
      case False
      then show ?thesis
        using codePointLoop_chars [of "i + 6" p data] assms(4) i'
        by (auto dest: isB64Char_neq isWhitespace_neq)
    qed
  next
    case double
    from double assms(2) have i': "i' = escapeLoop data (i + 7) (i + 7)" by simp
    show ?thesis
    proof (cases "p < i + 7")
      case True
      then show ?thesis
        using doubleEscape_chars [OF double(3) assms(3)] by (auto dest: isB64Char_neq)
    next
      case False
      then show ?thesis
        using escapeLoop_chars [of "i + 7" p data "i + 7"] assms(4) i'
        by (auto dest: isB64Char_neq)
    qed
  next
    case single
    from single assms(2) have i': "i' = escapeLoop data (i + 6) (i + 6)" by simp
    show ?thesis
    proof (cases "p < i + 6")
      case True
      then show ?thesis
        using singleEscape_chars [OF single(4) assms(3)] by (auto dest: isB64Char_neq)
    next
      case False
      then show ?thesis
        using escapeLoop_chars [of "i + 6" p data "i + 6"] assms(4) i'
        by (auto dest: isB64Char_neq)
    qed
  next
    case run
    let ?r = "takeWhile isB64Char (drop i data)"
    have "snd (scanStep data i) = i + length ?r"
      using scanStep_run [OF assms(1) run(5) run(2)] by (simp add: Let_def)
    with assms(2,3,4) have lt: "p - i < length ?r" by simp
    then have "?r ! (p - i) \<in> set ?r" by simp
    then have "isB64Char (?r ! (p - i))" by (auto dest: set_takeWhileD)
    moreover have "?r ! (p - i) = drop i data ! (p - i)" using lt by (rule takeWhile_nth)
    moreover have "i + (p - i) < length data"
      using lt length_takeWhile_le [of isB64Char "drop i data"] by simp
    ultimately have "isB64Char (data ! p)" using assms(3) by simp
    then show ?thesis by (auto dest: isB64Char_neq)
  next
    case other
    with assms(2,3,4) have "p = i" by simp
    with no assms(5) show ?thesis by simp
  qed
  with pc show False by simp
qed

lemma scanLoop_covers_percent:
  assumes "percentAt data p"
  shows "\<exists>m \<in> set (scanLoop data 0 []). kind (encoding m) = percentKind \<and>
    start (startEnd m) \<le> p \<and> p + 3 \<le> end_pos (startEnd m)"
proof -
  let ?C = "\<lambda>acc p. \<exists>m \<in> set acc. kind (encoding m) = percentKind \<and>
    start (startEnd m) \<le> p \<and> p + 3 \<le> end_pos (startEnd m)"
  let ?I = "\<lambda>(i::nat) acc. \<forall>p < i. percentAt data p \<longrightarrow> ?C acc p"
  have "\<exists>j. length data \<le> j \<and> ?I j (scanLoop data 0 [])"
  proof (rule scanLoop_invariant)
    show "?I 0 []" by simp
  next
    fix i i' :: nat and acc ms :: "encodingMatch list"
    assume i: "i < length data" and inv: "?I i acc" and st: "scanStep data i = (ms, i')"
    show "?I i' (acc @ ms)"
    proof (intro allI impI)
      fix p assume p: "p < i'" and pa: "percentAt data p"
      show "?C (acc @ ms) p"
      proof (cases "p < i")
        case True
        with inv pa have "?C acc p" by simp
        then show ?thesis by auto
      next
        case False
        then have ip: "i \<le> p" by simp
        have pi: "percentAt data i" using i st ip p pa by (rule scanStep_skips_no_percent)
        let ?r = "percentLoop data (i + 3) (i + 3)"
        have ms: "ms = [newMatch 0 i ?r]" and i': "i' = ?r"
          using pi st by (auto simp: scanStep_def Let_def)
        have span: "percentSpan data i ?r" using pi by (rule percent_branch_span)
        have "p + 3 \<le> ?r"
        proof (cases "p = i")
          case True
          with span show ?thesis by (simp add: percentSpan_def)
        next
          case False
          have "p \<noteq> i + 1" "p \<noteq> i + 2"
            using pi pa by (auto simp: percentAt_def dest: isHexChar_neq)
          with False ip have "i + 3 \<le> p" by simp
          moreover have "\<forall>k. i + 3 \<le> k \<and> k \<le> p \<longrightarrow> data ! k \<noteq> CHR 0x0A"
            using span p i' by (simp add: percentSpan_def)
          ultimately show ?thesis using pa by (intro percentLoop_complete)
        qed
        then have "?C [newMatch 0 i ?r] p" using ip by simp
        then show ?thesis unfolding ms by auto
      qed
    qed
  qed
  then obtain j where "length data \<le> j" and "?I j (scanLoop data 0 [])" by blast
  moreover have "p < length data" using assms by (simp add: percentAt_def)
  ultimately show ?thesis using assms by simp
qed

lemma encodings_precedence:
  assumes "e \<in> set encodings"
  shows "precedence e \<le> 4" and "kind e = percentKind \<Longrightarrow> precedence e = 4"
  using assms by (auto simp: encodings_def)

lemma scanLoop_encodings:
  "m \<in> set (scanLoop data 0 []) \<Longrightarrow> encoding m \<in> set encodings"
proof -
  assume "m \<in> set (scanLoop data 0 [])"
  then obtain i where i: "i < length data" "m \<in> set (fst (scanStep data i))"
    using scanLoop_emitted by blast
  obtain ms i' where st: "scanStep data i = (ms, i')" by (cases "scanStep data i")
  with i show ?thesis using scanStep_emits(6) [OF i(1) st] by simp
qed

lemma percent_survives:
  assumes "m \<in> set (scanLoop data 0 [])" and "kind (encoding m) = percentKind"
  shows "m \<in> set (findEncodingMatches ov data)"
proof -
  let ?all = "scanLoop data 0 []"
  from assms(1) obtain i where i: "i < length ?all" "?all ! i = m"
    by (auto simp: in_set_conv_nth)
  have top: "precedence (encoding m) = 4"
    using encodings_precedence(2) [OF scanLoop_encodings [OF assms(1)] assms(2)] .
  have le: "precedence (encoding (?all ! k)) \<le> 4" if "k < length ?all" for k
    using encodings_precedence(1) [OF scanLoop_encodings [OF nth_mem [OF that]]] .
  have "i - 1 < length ?all" using i(1) by simp
  then have "precedence (encoding (?all ! (i - 1))) \<le> 4" by (rule le)
  moreover have "i + 1 < length ?all \<longrightarrow> precedence (encoding (?all ! (i + 1))) \<le> 4"
    using le by blast
  ultimately have "\<not> losesToNeighbour ov ?all i"
    using i(2) top unfolding losesToNeighbour_def by auto
  then have "i \<in> set (filter (\<lambda>i. \<not> losesToNeighbour ov ?all i) [0..<length ?all])"
    using i(1) by simp
  then have "?all ! i \<in> set (findEncodingMatches ov data)"
    by (subst findEncodingMatches_eq) (simp only: set_map image_eqI)
  with i(2) show ?thesis by simp
qed

lemma scanStep_percent_kind:
  assumes "i < length data" and "m \<in> set (fst (scanStep data i))"
    and "kind (encoding m) = percentKind"
  shows "percentAt data i \<and> m = newMatch 0 i (percentLoop data (i + 3) (i + 3))"
proof (cases rule: scanStep_cases [of data i])
  case percent
  with assms(2) show ?thesis by simp
next
  case codePoint
  with assms(2,3) show ?thesis by simp
next
  case double
  with assms(2,3) show ?thesis by simp
next
  case single
  with assms(2,3) show ?thesis by simp
next
  case run
  from assms(2,3) show ?thesis
    unfolding scanStep_run [OF assms(1) run(5) run(2)]
    by (auto simp: Let_def split: if_splits)
next
  case other
  with assms(2) show ?thesis by simp
qed



lemma scanStep_run_kind:
  assumes "i < length data" and "m \<in> set (fst (scanStep data i))"
  shows "(kind (encoding m) = hexKind \<longrightarrow> start (startEnd m) = i \<and> hexSpan data i (end_pos (startEnd m))) \<and>
         (kind (encoding m) = base64Kind \<longrightarrow> start (startEnd m) = i \<and> base64Span data i (end_pos (startEnd m)))"
proof (cases rule: scanStep_cases [of data i])
  case percent
  with assms(2) show ?thesis by simp
next
  case codePoint
  with assms(2) show ?thesis by simp
next
  case double
  with assms(2) show ?thesis by simp
next
  case single
  with assms(2) show ?thesis by simp
next
  case run
  from assms(2) show ?thesis
    unfolding scanStep_run [OF assms(1) run(5) run(2)]
    by (auto simp: Let_def hexSpan_def base64Span_def split: if_splits)
next
  case other
  with assms(2) show ?thesis by simp
qed

lemma output_run_kind:
  assumes "m \<in> set (findEncodingMatches ov data)"
  shows "(kind (encoding m) = hexKind \<longrightarrow>
            hexSpan data (start (startEnd m)) (end_pos (startEnd m))) \<and>
         (kind (encoding m) = base64Kind \<longrightarrow>
            base64Span data (start (startEnd m)) (end_pos (startEnd m)))"
proof -
  from assms have "m \<in> set (scanLoop data 0 [])" using findEncodingMatches_subset by blast
  then obtain i where i: "i < length data" "m \<in> set (fst (scanStep data i))"
    using scanLoop_emitted by blast
  from scanStep_run_kind [OF i] show ?thesis by auto
qed

section \<open>The positions of the cursor\<close>

lemma cursors_step:
  "i < length data \<Longrightarrow> cursors data i = i # cursors data (snd (scanStep data i))"
  by (subst cursors.simps) simp

lemma cursors_stop: "\<not> i < length data \<Longrightarrow> cursors data i = []"
  by (subst cursors.simps) simp

lemma scanLoop_cursors:
  "scanLoop data i acc = acc @ concat (map (\<lambda>j. fst (scanStep data j)) (cursors data i))"
proof (induction "length data - i" arbitrary: i acc rule: less_induct)
  case less
  show ?case
  proof (cases "i < length data")
    case True
    obtain ms i' where st: "scanStep data i = (ms, i')" by (cases "scanStep data i")
    have "i < i'" using scanStep_advances [of i data] st by simp
    then have "length data - i' < length data - i" using True by simp
    then have "scanLoop data i' (acc @ ms) =
        (acc @ ms) @ concat (map (\<lambda>j. fst (scanStep data j)) (cursors data i'))"
      by (rule less.hyps)
    moreover have "scanLoop data i acc = scanLoop data i' (acc @ ms)"
      using True st by (subst scanLoop.simps) simp
    moreover have "cursors data i = i # cursors data i'"
      using cursors_step [OF True] st by simp
    ultimately show ?thesis using st by simp
  next
    case False
    then have "scanLoop data i acc = acc" by (subst scanLoop.simps) simp
    with False show ?thesis by (simp add: cursors_stop)
  qed
qed

lemma cursors_bounds: "j \<in> set (cursors data i) \<Longrightarrow> i \<le> j \<and> j < length data"
proof (induction "length data - i" arbitrary: i rule: less_induct)
  case less
  show ?case
  proof (cases "i < length data")
    case True
    let ?i' = "snd (scanStep data i)"
    have adv: "i < ?i'" by (rule scanStep_advances)
    from less.prems True have "j = i \<or> j \<in> set (cursors data ?i')"
      by (simp add: cursors_step)
    then show ?thesis
    proof
      assume "j = i" with True show ?thesis by simp
    next
      assume j: "j \<in> set (cursors data ?i')"
      have "length data - ?i' < length data - i" using adv True by simp
      from less.hyps [OF this j] adv show ?thesis by simp
    qed
  next
    case False
    with less.prems show ?thesis by (simp add: cursors_stop)
  qed
qed

lemma cursors_next:
  "s \<in> set (cursors data i) \<Longrightarrow> j \<in> set (cursors data i) \<Longrightarrow> s < j \<Longrightarrow>
   snd (scanStep data s) \<le> j"
proof (induction "length data - i" arbitrary: i rule: less_induct)
  case less
  show ?case
  proof (cases "i < length data")
    case True
    let ?i' = "snd (scanStep data i)"
    have adv: "i < ?i'" by (rule scanStep_advances)
    have c: "cursors data i = i # cursors data ?i'" using True by (rule cursors_step)
    have m: "length data - ?i' < length data - i" using adv True by simp
    have sge: "i \<le> s" using less.prems(1) cursors_bounds by blast
    with less.prems(3) have "j \<noteq> i" by simp
    with less.prems(2) c have j: "j \<in> set (cursors data ?i')" by simp
    show ?thesis
    proof (cases "s = i")
      case True
      with j cursors_bounds show ?thesis by blast
    next
      case False
      with less.prems(1) c have "s \<in> set (cursors data ?i')" by simp
      from less.hyps [OF m this j less.prems(3)] show ?thesis .
    qed
  next
    case False
    with less.prems show ?thesis by (simp add: cursors_stop)
  qed
qed

lemma cursors_reach:
  "i \<le> s \<Longrightarrow> s < length data \<Longrightarrow>
   s \<in> set (cursors data i) \<or>
   (\<exists>j \<in> set (cursors data i). j < s \<and> s < snd (scanStep data j))"
proof (induction "length data - i" arbitrary: i rule: less_induct)
  case less
  let ?i' = "snd (scanStep data i)"
  have i: "i < length data" using less.prems by simp
  have adv: "i < ?i'" by (rule scanStep_advances)
  have c: "cursors data i = i # cursors data ?i'" using i by (rule cursors_step)
  consider "s = i" | "i < s" "s < ?i'" | "?i' \<le> s" using less.prems(1) by linarith
  then show ?case
  proof cases
    case 1
    with c show ?thesis by simp
  next
    case 2
    with c show ?thesis by auto
  next
    case 3
    have "length data - ?i' < length data - i" using adv i by simp
    from less.hyps [OF this 3 less.prems(2)] c show ?thesis by auto
  qed
qed

lemma candidate_cursor:
  assumes "m \<in> set (scanLoop data 0 [])"
  shows "start (startEnd m) \<in> set (cursors data 0) \<and>
    m \<in> set (fst (scanStep data (start (startEnd m))))"
proof -
  from assms obtain j where j: "j \<in> set (cursors data 0)" "m \<in> set (fst (scanStep data j))"
    by (auto simp: scanLoop_cursors [of data 0 "[]"])
  then have l: "j < length data" using cursors_bounds by blast
  obtain ms i' where st: "scanStep data j = (ms, i')" by (cases "scanStep data j")
  have "start (startEnd m) = j" using scanStep_emits(2) [OF l st] j(2) st by simp
  with j show ?thesis by simp
qed

lemma cursor_candidates:
  "s \<in> set (cursors data 0) \<Longrightarrow> set (fst (scanStep data s)) \<subseteq> set (scanLoop data 0 [])"
  by (auto simp: scanLoop_cursors [of data 0 "[]"])

lemma step_inside:
  assumes "j < length data" and "j < s" and "s < snd (scanStep data j)"
  shows "(\<exists>m \<in> set (fst (scanStep data j)). start (startEnd m) = j \<and> s < end_pos (startEnd m))
    \<or> isB64Char (data ! (s - 1))"
proof (cases rule: scanStep_cases [of data j])
  case percent
  with assms show ?thesis by simp
next
  case codePoint
  with assms show ?thesis by simp
next
  case double
  with assms show ?thesis by simp
next
  case single
  with assms show ?thesis by simp
next
  case run
  let ?r = "takeWhile isB64Char (drop j data)"
  from run have "snd (scanStep data j) = j + length ?r"
    using scanStep_run [OF assms(1)] by (simp add: Let_def)
  with assms have k: "s - 1 - j < length ?r" by simp
  then have "?r ! (s - 1 - j) \<in> set ?r" by simp
  then have "isB64Char (?r ! (s - 1 - j))" by (auto dest: set_takeWhileD)
  moreover have "?r ! (s - 1 - j) = drop j data ! (s - 1 - j)" using k by (rule takeWhile_nth)
  moreover have "j + (s - 1 - j) \<le> length data"
    using k length_takeWhile_le [of isB64Char "drop j data"] by simp
  then have "drop j data ! (s - 1 - j) = data ! (j + (s - 1 - j))" by simp
  moreover have "j + (s - 1 - j) = s - 1" using assms(2) by simp
  ultimately show ?thesis by simp
next
  case other
  with assms show ?thesis by simp
qed

lemma cursor_at_start:
  assumes "s < length data" and "s = 0 \<or> \<not> isB64Char (data ! (s - 1))"
    and "\<forall>m \<in> set (scanLoop data 0 []). \<not> (start (startEnd m) < s \<and> s < end_pos (startEnd m))"
  shows "s \<in> set (cursors data 0)"
proof (rule ccontr)
  assume "s \<notin> set (cursors data 0)"
  with cursors_reach [of 0 s data] assms(1)
  obtain j where j: "j \<in> set (cursors data 0)" "j < s" "s < snd (scanStep data j)" by auto
  then have l: "j < length data" using cursors_bounds by blast
  from assms(2) j(2) have "\<not> isB64Char (data ! (s - 1))" by simp
  with step_inside [OF l j(2,3)]
  obtain m where "m \<in> set (fst (scanStep data j))" "start (startEnd m) = j"
    "s < end_pos (startEnd m)" by blast
  with cursor_candidates [OF j(1)] j(2) assms(3) show False by blast
qed

lemma run_step:
  assumes "s < length data" and "isB64Char (data ! s)" and "\<not> qualifies data s"
  shows "scanStep data s = (runMatch data s, s + length (takeWhile isB64Char (drop s data)))"
  using scanStep_run [OF assms(1,2)] assms(3)
  by (simp add: qualifies_def runMatch_def Let_def)

lemma run_emitted:
  assumes "s \<in> set (cursors data 0)" and "isB64Char (data ! s)" and "\<not> qualifies data s"
  shows "set (runMatch data s) \<subseteq> set (scanLoop data 0 [])"
    and "\<forall>m \<in> set (scanLoop data 0 []).
      s \<le> start (startEnd m) \<and>
      start (startEnd m) < s + length (takeWhile isB64Char (drop s data)) \<longrightarrow>
      m \<in> set (runMatch data s)"
proof -
  have l: "s < length data" using assms(1) cursors_bounds by blast
  note st = run_step [OF l assms(2,3)]
  show "set (runMatch data s) \<subseteq> set (scanLoop data 0 [])"
    using cursor_candidates [OF assms(1)] st by simp
  show "\<forall>m \<in> set (scanLoop data 0 []).
      s \<le> start (startEnd m) \<and>
      start (startEnd m) < s + length (takeWhile isB64Char (drop s data)) \<longrightarrow>
      m \<in> set (runMatch data s)"
  proof (intro ballI impI)
    fix m assume m: "m \<in> set (scanLoop data 0 [])"
      and r: "s \<le> start (startEnd m) \<and>
        start (startEnd m) < s + length (takeWhile isB64Char (drop s data))"
    note c = candidate_cursor [OF m]
    show "m \<in> set (runMatch data s)"
    proof (cases "start (startEnd m) = s")
      case True
      with c st show ?thesis by simp
    next
      case False
      with r have "s < start (startEnd m)" by simp
      from cursors_next [OF assms(1) conjunct1 [OF c] this] st r show ?thesis by simp
    qed
  qed
qed

lemma candidate_kept:
  assumes "m \<in> set (scanLoop data 0 [])"
  shows "m \<in> set (findEncodingMatches ov data) \<or>
    (\<exists>m' \<in> set (scanLoop data 0 []). ov (startEnd m) (startEnd m') \<and>
       precedence (encoding m) < precedence (encoding m'))"
proof -
  let ?all = "scanLoop data 0 []"
  from assms obtain k where k: "k < length ?all" "?all ! k = m" by (auto simp: in_set_conv_nth)
  show ?thesis
  proof (cases "losesToNeighbour ov ?all k")
    case False
    with k have "m \<in> set (findEncodingMatches ov data)"
      by (subst findEncodingMatches_eq) force
    then show ?thesis ..
  next
    case True
    then consider "0 < k" "ov (startEnd (?all ! k)) (startEnd (?all ! (k - 1)))"
        "precedence (encoding (?all ! k)) < precedence (encoding (?all ! (k - 1)))"
      | "k + 1 < length ?all" "ov (startEnd (?all ! k)) (startEnd (?all ! (k + 1)))"
        "precedence (encoding (?all ! k)) < precedence (encoding (?all ! (k + 1)))"
      unfolding losesToNeighbour_def by blast
    then show ?thesis
    proof cases
      case 1
      have "?all ! (k - 1) \<in> set ?all" using k(1) by simp
      with 1 k(2) show ?thesis by blast
    next
      case 2
      have "?all ! (k + 1) \<in> set ?all" using 2(1) by simp
      with 2 k(2) show ?thesis by blast
    qed
  qed
qed

lemma candidate_kept_overlaps:
  assumes "m \<in> set (scanLoop data 0 [])"
  shows "m \<in> set (findEncodingMatches overlaps data)"
proof -
  let ?all = "scanLoop data 0 []"
  let ?R = "\<lambda>a b. end_pos (startEnd a) \<le> start (startEnd b)"
  have sorted: "sorted_wrt ?R ?all" and ne: "\<forall>m \<in> set ?all. start (startEnd m) < end_pos (startEnd m)"
    using scanLoop_chain [of data] by simp_all
  from assms obtain k where k: "k < length ?all" "?all ! k = m" by (auto simp: in_set_conv_nth)
  have lt: "?R (?all ! a) (?all ! b)" if "a < b" "b < length ?all" for a b
    using sorted that by (simp add: sorted_wrt_iff_nth_less)
  have "\<not> losesToNeighbour overlaps ?all k"
  proof
    assume "losesToNeighbour overlaps ?all k"
    then consider "0 < k" "overlaps (startEnd (?all ! k)) (startEnd (?all ! (k - 1)))"
      | "k + 1 < length ?all" "overlaps (startEnd (?all ! k)) (startEnd (?all ! (k + 1)))"
      unfolding losesToNeighbour_def by blast
    then show False
    proof cases
      case 1
      from lt [of "k - 1" k] 1(1) k(1) have "?R (?all ! (k - 1)) (?all ! k)" by simp
      with 1(2) show False by (simp add: overlaps_def)
    next
      case 2
      from lt [of k "k + 1"] 2(1) have "?R (?all ! k) (?all ! (k + 1))" by simp
      with 2(2) show False by (simp add: overlaps_def)
    qed
  qed
  with k show ?thesis by (subst findEncodingMatches_eq) force
qed

lemma findEncodingMatches_overlaps: "findEncodingMatches overlaps data = scanLoop data 0 []"
proof -
  let ?all = "scanLoop data 0 []"
  have "\<not> losesToNeighbour overlaps ?all k" if "k < length ?all" for k
  proof
    assume l: "losesToNeighbour overlaps ?all k"
    from that have "?all ! k \<in> set ?all" by simp
    from candidate_kept_overlaps [OF this] have "?all ! k \<in> set (findEncodingMatches overlaps data)" .
    let ?R = "\<lambda>a b. end_pos (startEnd a) \<le> start (startEnd b)"
    have sorted: "sorted_wrt ?R ?all" using scanLoop_chain [of data] by simp
    have lt: "?R (?all ! a) (?all ! b)" if "a < b" "b < length ?all" for a b
      using sorted that by (simp add: sorted_wrt_iff_nth_less)
    from l consider "0 < k" "overlaps (startEnd (?all ! k)) (startEnd (?all ! (k - 1)))"
      | "k + 1 < length ?all" "overlaps (startEnd (?all ! k)) (startEnd (?all ! (k + 1)))"
      unfolding losesToNeighbour_def by blast
    then show False
    proof cases
      case 1
      from lt [of "k - 1" k] 1(1) that have "?R (?all ! (k - 1)) (?all ! k)" by simp
      with 1(2) show False by (simp add: overlaps_def)
    next
      case 2
      from lt [of k "k + 1"] 2(1) have "?R (?all ! k) (?all ! (k + 1))" by simp
      with 2(2) show False by (simp add: overlaps_def)
    qed
  qed
  then have "filter (\<lambda>i. \<not> losesToNeighbour overlaps ?all i) [0..<length ?all] = [0..<length ?all]"
    by (intro filter_True) simp
  then have "findEncodingMatches overlaps data = map ((!) ?all) [0..<length ?all]"
    by (subst findEncodingMatches_eq) simp
  then show ?thesis by (simp add: map_nth)
qed

lemma qualifies_run_short:
  assumes "qualifies data s"
  shows "length (takeWhile isB64Char (drop s data)) \<le> 6"
proof (rule ccontr)
  let ?r = "takeWhile isB64Char (drop s data)"
  assume "\<not> length ?r \<le> 6"
  then have k: "6 < length ?r" by simp
  then have "?r ! 6 \<in> set ?r" by simp
  then have "isB64Char (?r ! 6)" by (auto dest: set_takeWhileD)
  moreover have "?r ! 6 = drop s data ! 6" using k by (rule takeWhile_nth)
  moreover have l: "s + 6 < length data"
    using k length_takeWhile_le [of isB64Char "drop s data"] by simp
  then have "drop s data ! 6 = data ! (s + 6)" by simp
  ultimately have "isB64Char (data ! (s + 6))" by simp
  then have "\<not> isWhitespace (data ! (s + 6))" by (rule isB64Char_neq)
  with assms l show False by (simp add: qualifies_def endsGroup_def)
qed

lemma base64_emitted:
  assumes "s \<in> set (cursors data 0)" and "isB64Char (data ! s)"
    and "16 \<le> length (takeWhile isB64Char (drop s data))"
    and "\<not> (list_all isHexChar (takeWhile isB64Char (drop s data)) \<and>
      32 \<le> length (takeWhile isB64Char (drop s data)))"
  shows "newMatch 3 s (s + length (takeWhile isB64Char (drop s data)) +
      min 2 (length (takeWhile (\<lambda>c. c = CHR ''='')
        (drop (s + length (takeWhile isB64Char (drop s data))) data))))
    \<in> set (scanLoop data 0 [])"
proof -
  have "\<not> qualifies data s" using qualifies_run_short [of data s] assms(3) by auto
  from run_emitted(1) [OF assms(1,2) this] assms(3,4) show ?thesis
    by (auto simp: runMatch_def Let_def)
qed

lemma candidate_run_kind:
  assumes "m \<in> set (scanLoop data 0 [])"
  shows "(kind (encoding m) = hexKind \<longrightarrow>
            hexSpan data (start (startEnd m)) (end_pos (startEnd m))) \<and>
         (kind (encoding m) = base64Kind \<longrightarrow>
            base64Span data (start (startEnd m)) (end_pos (startEnd m)))"
proof -
  note c = candidate_cursor [OF assms]
  then have "start (startEnd m) < length data" using cursors_bounds by blast
  from scanStep_run_kind [OF this conjunct2 [OF c]] show ?thesis by simp
qed



section \<open>Facts about the Unicode decoder\<close>

lemma digitValue_less: "digitValue c < 16"
  by (auto simp: digitValue_def less_eq_char_def)

lemma hexMap_hex: "isHexChar c \<Longrightarrow> hexMap c = of_nat (digitValue c)"
  by (auto simp: isHexChar_def hexMap_def digitValue_def less_eq_char_def)

lemma hexMap_not_hex: "\<not> isHexChar c \<Longrightarrow> hexMap c = 0xFF"
  by (auto simp: isHexChar_def hexMap_def)

lemma of_nat_digit_neq: "n < 16 \<Longrightarrow> (of_nat n :: 8 word) \<noteq> 0xFF"
proof
  assume n: "n < 16" and "(of_nat n :: 8 word) = 0xFF"
  then have "unat (of_nat n :: 8 word) = unat (0xFF :: 8 word)" by simp
  moreover have "unat (of_nat n :: 8 word) = n" using n by (simp add: unat_of_nat)
  ultimately show False using n by simp
qed

lemma hexMap_FF_iff: "hexMap c = 0xFF \<longleftrightarrow> \<not> isHexChar c"
  using hexMap_hex [of c] hexMap_not_hex [of c] of_nat_digit_neq [OF digitValue_less [of c]]
  by auto

lemma parseHex4Loop_unfold:
  "parseHex4Loop s offset 0 0 =
     (if isHexChar (s ! offset) \<and> isHexChar (s ! (offset + 1)) \<and>
         isHexChar (s ! (offset + 2)) \<and> isHexChar (s ! (offset + 3))
      then Some (push_bit 12 (ucast (hexMap (s ! offset))) OR
                 push_bit 8 (ucast (hexMap (s ! (offset + 1)))) OR
                 push_bit 4 (ucast (hexMap (s ! (offset + 2)))) OR
                 ucast (hexMap (s ! (offset + 3))))
      else None)"
proof -
  have stop: "parseHex4Loop s offset (Suc (Suc (Suc (Suc 0)))) v = Some v" for v
    by (subst parseHex4Loop.simps) simp
  have step: "i < 4 \<Longrightarrow> parseHex4Loop s offset i v =
      (if isHexChar (s ! (offset + i))
       then parseHex4Loop s offset (Suc i) (push_bit 4 v OR ucast (hexMap (s ! (offset + i))))
       else None)" for i v
    by (subst parseHex4Loop.simps) (simp add: Let_def hexMap_FF_iff)
  show ?thesis by (simp add: step stop eval_nat_numeral or.assoc)
qed

lemma or_low_nat:
  assumes "x < 2 ^ n"
  shows "push_bit n y OR x = push_bit n y + (x::nat)"
proof -
  from assms have t: "take_bit n x = x" by (rule take_bit_nat_eq_self)
  have "push_bit n y AND take_bit n x = 0"
    by (simp add: bit_eq_iff bit_simps)
  then have "push_bit n y AND x = 0" by (simp add: t)
  then show ?thesis by (simp add: disjunctive_add_eq_or)
qed

lemma hex4_nat:
  assumes "a < 16" "b < 16" "c < 16" "d < 16"
  shows "push_bit 12 a OR push_bit 8 b OR push_bit 4 c OR d = 4096 * a + 256 * b + 16 * c + (d::nat)"
proof -
  have "push_bit 4 c OR d = 16 * c + d"
    using or_low_nat [of d 4 c] assms(4) by (simp add: push_bit_eq_mult)
  moreover have "16 * c + d < 2 ^ 8" using assms(3,4) by simp
  then have "push_bit 8 b OR (16 * c + d) = 256 * b + (16 * c + d)"
    using or_low_nat [of "16 * c + d" 8 b] by (simp add: push_bit_eq_mult)
  moreover have "256 * b + (16 * c + d) < 2 ^ 12" using assms(2,3,4) by simp
  then have "push_bit 12 a OR (256 * b + (16 * c + d)) = 4096 * a + (256 * b + (16 * c + d))"
    using or_low_nat [of "256 * b + (16 * c + d)" 12 a] by (simp add: push_bit_eq_mult)
  ultimately show ?thesis by (simp add: or.assoc)
qed

lemma ucast_hexMap: "isHexChar c \<Longrightarrow> (ucast (hexMap c) :: rune) = of_nat (digitValue c)"
proof -
  assume "isHexChar c"
  then have "hexMap c = of_nat (digitValue c)" by (rule hexMap_hex)
  moreover have "take_bit 8 (digitValue c) = digitValue c"
    using digitValue_less [of c] by (intro take_bit_nat_eq_self) simp
  ultimately show ?thesis by (simp add: unsigned_of_nat)
qed

lemma parseHex4_hex:
  assumes "offset + 4 \<le> length s"
    and "isHexChar (s ! offset)" "isHexChar (s ! (offset + 1))"
    and "isHexChar (s ! (offset + 2))" "isHexChar (s ! (offset + 3))"
  shows "parseHex4 s offset =
    Some (of_nat (hex4Value (s ! offset) (s ! (offset + 1)) (s ! (offset + 2)) (s ! (offset + 3))))"
proof -
  have "(push_bit 12 (of_nat (digitValue (s ! offset))) OR
         push_bit 8 (of_nat (digitValue (s ! (offset + 1)))) OR
         push_bit 4 (of_nat (digitValue (s ! (offset + 2)))) OR
         of_nat (digitValue (s ! (offset + 3))) :: rune) =
        of_nat (push_bit 12 (digitValue (s ! offset)) OR
         push_bit 8 (digitValue (s ! (offset + 1))) OR
         push_bit 4 (digitValue (s ! (offset + 2))) OR
         digitValue (s ! (offset + 3)))"
    by (simp only: of_nat_or_eq of_nat_push_bit)
  also have "\<dots> = of_nat (hex4Value (s ! offset) (s ! (offset + 1)) (s ! (offset + 2))
      (s ! (offset + 3)))"
    by (simp only: hex4_nat [OF digitValue_less digitValue_less digitValue_less digitValue_less]
        hex4Value_def)
  finally show ?thesis
    using assms by (simp add: parseHex4_def parseHex4Loop_unfold ucast_hexMap)
qed

lemma parseHex4_None_iff:
  "parseHex4 s offset = None \<longleftrightarrow>
     \<not> (offset + 4 \<le> length s \<and> isHexChar (s ! offset) \<and> isHexChar (s ! (offset + 1)) \<and>
        isHexChar (s ! (offset + 2)) \<and> isHexChar (s ! (offset + 3)))"
  by (auto simp: parseHex4_def parseHex4Loop_unfold)

lemma codePointsLoop_unit:
  "codePointUnit s i = Some r \<Longrightarrow>
   codePointsLoop s i ch buf = codePointsLoop s (skipSeparator s (i + 6)) True (buf @ EncodeRune r)"
  by (subst codePointsLoop.simps) (auto simp: codePointUnit_def split: if_splits)

lemma codePointsLoop_copy:
  "i < length s \<Longrightarrow> codePointUnit s i = None \<Longrightarrow>
   codePointsLoop s i ch buf = codePointsLoop s (i + 1) ch (buf @ [s ! i])"
  by (subst codePointsLoop.simps) (auto simp: codePointUnit_def split: if_splits)

lemma codePointsLoop_stop:
  "\<not> i < length s \<Longrightarrow> codePointsLoop s i ch buf = (ch, buf)"
  by (subst codePointsLoop.simps) simp

lemma codePointUnit_bound: "codePointUnit s i = Some r \<Longrightarrow> i + 6 \<le> length s"
  by (auto simp: codePointUnit_def split: if_splits)

lemma skipSeparator_bounds: "i \<le> skipSeparator s i" "skipSeparator s i \<le> i + 1"
  "i \<le> length s \<Longrightarrow> skipSeparator s i \<le> length s"
  by (auto simp: skipSeparator_def)

lemma codePointsLoop_acc:
  "codePointsLoop s i ch buf =
     (ch \<or> fst (codePointsLoop s i False []), buf @ snd (codePointsLoop s i False []))"
proof (induction "length s - i" arbitrary: i ch buf rule: less_induct)
  case less
  show ?case
  proof (cases "i < length s")
    case True
    show ?thesis
    proof (cases "codePointUnit s i")
      case None
      have "length s - (i + 1) < length s - i" using True by simp
      note IH = less.hyps [OF this]
      show ?thesis
        unfolding codePointsLoop_copy [OF True None]
        by (subst IH, subst (2 3) IH) simp
    next
      case (Some r)
      have "i < skipSeparator s (i + 6)" using skipSeparator_bounds(1) [of "i + 6" s] by simp
      then have "length s - skipSeparator s (i + 6) < length s - i" using True by simp
      note IH = less.hyps [OF this]
      show ?thesis
        unfolding codePointsLoop_unit [OF Some]
        by (subst IH, subst (2 3) IH) simp
    qed
  next
    case False
    then show ?thesis by (simp add: codePointsLoop_stop)
  qed
qed

lemma codePointsLoop_unchanged:
  "i \<le> length s \<Longrightarrow> \<not> fst (codePointsLoop s i False []) \<Longrightarrow>
   snd (codePointsLoop s i False []) = drop i s"
proof (induction "length s - i" arbitrary: i rule: less_induct)
  case less
  show ?case
  proof (cases "i < length s")
    case True
    show ?thesis
    proof (cases "codePointUnit s i")
      case None
      have eq: "codePointsLoop s i False [] =
          (fst (codePointsLoop s (i + 1) False []), s ! i # snd (codePointsLoop s (i + 1) False []))"
        unfolding codePointsLoop_copy [OF True None]
        by (subst codePointsLoop_acc) simp
      have "length s - (i + 1) < length s - i" using True by simp
      moreover have "i + 1 \<le> length s" using True by simp
      moreover have "\<not> fst (codePointsLoop s (i + 1) False [])" using less.prems(2) eq by simp
      ultimately have "snd (codePointsLoop s (i + 1) False []) = drop (i + 1) s"
        by (rule less.hyps)
      then show ?thesis using eq True by (simp add: Cons_nth_drop_Suc)
    next
      case (Some r)
      have "fst (codePointsLoop s i False [])"
        unfolding codePointsLoop_unit [OF Some] by (subst codePointsLoop_acc) simp
      with less.prems(2) show ?thesis by simp
    qed
  next
    case False
    with less.prems(1) show ?thesis by (simp add: codePointsLoop_stop)
  qed
qed

lemma decodeUnicodeCodePoints_eq:
  "decodeUnicodeCodePoints s = snd (codePointsLoop s 0 False [])"
  using codePointsLoop_unchanged [of 0 s]
  by (auto simp: decodeUnicodeCodePoints_def split: prod.splits)

lemma parseHex4_shift: "parseHex4 (pre @ s) (length pre + k) = parseHex4 s k"
  by (simp add: parseHex4_def parseHex4Loop_unfold nth_append add.assoc)

lemma codePointUnit_shift: "codePointUnit (pre @ s) (length pre + i) = codePointUnit s i"
  using parseHex4_shift [of pre s "i + 2"]
  by (simp add: codePointUnit_def nth_append add.assoc)

lemma skipSeparator_shift:
  "skipSeparator (pre @ s) (length pre + i) = length pre + skipSeparator s i"
  by (simp add: skipSeparator_def nth_append add.assoc)

lemma codePointsLoop_shift:
  "codePointsLoop (pre @ s) (length pre + i) ch buf = codePointsLoop s i ch buf"
proof (induction "length s - i" arbitrary: i ch buf rule: less_induct)
  case less
  show ?case
  proof (cases "i < length s")
    case True
    show ?thesis
    proof (cases "codePointUnit s i")
      case None
      have "length s - (i + 1) < length s - i" using True by simp
      note IH = less.hyps [OF this]
      have "codePointsLoop (pre @ s) (length pre + i) ch buf =
          codePointsLoop (pre @ s) (length pre + i + 1) ch (buf @ [(pre @ s) ! (length pre + i)])"
        using True None by (intro codePointsLoop_copy) (simp_all add: codePointUnit_shift)
      also have "\<dots> = codePointsLoop s (i + 1) ch (buf @ [s ! i])"
        using IH [of ch "buf @ [s ! i]"] by (simp add: add.assoc)
      finally show ?thesis by (simp add: codePointsLoop_copy [OF True None])
    next
      case (Some r)
      have "i < skipSeparator s (i + 6)" using skipSeparator_bounds(1) [of "i + 6" s] by simp
      then have "length s - skipSeparator s (i + 6) < length s - i" using True by simp
      note IH = less.hyps [OF this]
      have "codePointsLoop (pre @ s) (length pre + i) ch buf =
          codePointsLoop (pre @ s) (skipSeparator (pre @ s) (length pre + i + 6)) True
            (buf @ EncodeRune r)"
        using Some by (intro codePointsLoop_unit) (simp add: codePointUnit_shift)
      also have "\<dots> = codePointsLoop s (skipSeparator s (i + 6)) True (buf @ EncodeRune r)"
        using IH [of True "buf @ EncodeRune r"] skipSeparator_shift [of pre s "i + 6"]
        by (simp add: add.assoc)
      finally show ?thesis by (simp add: codePointsLoop_unit [OF Some])
    qed
  next
    case False
    then show ?thesis by (simp add: codePointsLoop_stop)
  qed
qed

lemma escapesLoop_unit:
  "escapeUnit s i = Some (r, L) \<Longrightarrow>
   escapesLoop s i ch buf = escapesLoop s (i + L) True (buf @ EncodeRune r)"
  by (subst escapesLoop.simps)
    (auto simp: escapeUnit_def split: if_splits option.splits)

lemma escapesLoop_copy:
  "i < length s \<Longrightarrow> escapeUnit s i = None \<Longrightarrow>
   escapesLoop s i ch buf = escapesLoop s (i + 1) ch (buf @ [s ! i])"
  by (subst escapesLoop.simps)
    (auto simp: escapeUnit_def split: if_splits option.splits)

lemma escapesLoop_stop:
  "\<not> i < length s \<Longrightarrow> escapesLoop s i ch buf = (ch, buf)"
  by (subst escapesLoop.simps) simp

lemma escapeUnit_bound:
  assumes "escapeUnit s i = Some (r, L)"
  shows "(L = 6 \<or> L = 7) \<and> i + L \<le> length s"
  using assms
  by (auto simp: escapeUnit_def doubleUnit_def singleUnit_def split: if_splits option.splits)

lemma escapesLoop_acc:
  "escapesLoop s i ch buf =
     (ch \<or> fst (escapesLoop s i False []), buf @ snd (escapesLoop s i False []))"
proof (induction "length s - i" arbitrary: i ch buf rule: less_induct)
  case less
  show ?case
  proof (cases "i < length s")
    case True
    show ?thesis
    proof (cases "escapeUnit s i")
      case None
      have "length s - (i + 1) < length s - i" using True by simp
      note IH = less.hyps [OF this]
      show ?thesis
        unfolding escapesLoop_copy [OF True None]
        by (subst IH, subst (2 3) IH) simp
    next
      case (Some u)
      obtain r L where u: "u = (r, L)" by (cases u)
      have "0 < L" using escapeUnit_bound [of s i r L] Some u by auto
      then have "length s - (i + L) < length s - i" using True by simp
      note IH = less.hyps [OF this]
      show ?thesis
        unfolding escapesLoop_unit [OF Some [unfolded u]]
        by (subst IH, subst (2 3) IH) simp
    qed
  next
    case False
    then show ?thesis by (simp add: escapesLoop_stop)
  qed
qed

lemma escapesLoop_unchanged:
  "i \<le> length s \<Longrightarrow> \<not> fst (escapesLoop s i False []) \<Longrightarrow>
   snd (escapesLoop s i False []) = drop i s"
proof (induction "length s - i" arbitrary: i rule: less_induct)
  case less
  show ?case
  proof (cases "i < length s")
    case True
    show ?thesis
    proof (cases "escapeUnit s i")
      case None
      have eq: "escapesLoop s i False [] =
          (fst (escapesLoop s (i + 1) False []), s ! i # snd (escapesLoop s (i + 1) False []))"
        unfolding escapesLoop_copy [OF True None]
        by (subst escapesLoop_acc) simp
      have "length s - (i + 1) < length s - i" using True by simp
      moreover have "i + 1 \<le> length s" using True by simp
      moreover have "\<not> fst (escapesLoop s (i + 1) False [])" using less.prems(2) eq by simp
      ultimately have "snd (escapesLoop s (i + 1) False []) = drop (i + 1) s"
        by (rule less.hyps)
      then show ?thesis using eq True by (simp add: Cons_nth_drop_Suc)
    next
      case (Some u)
      obtain r L where u: "u = (r, L)" by (cases u)
      have "fst (escapesLoop s i False [])"
        unfolding escapesLoop_unit [OF Some [unfolded u]] by (subst escapesLoop_acc) simp
      with less.prems(2) show ?thesis by simp
    qed
  next
    case False
    with less.prems(1) show ?thesis by (simp add: escapesLoop_stop)
  qed
qed

lemma decodeUnicodeEscapes_eq:
  "decodeUnicodeEscapes s = snd (escapesLoop s 0 False [])"
  using escapesLoop_unchanged [of 0 s]
  by (auto simp: decodeUnicodeEscapes_def split: prod.splits)

lemma doubleUnit_shift: "doubleUnit (pre @ s) (length pre + i) = doubleUnit s i"
proof -
  have "(pre @ s) ! (length pre + i + 1) = s ! (i + 1)"
    "(pre @ s) ! (length pre + i + 2) = s ! (i + 2)"
    "parseHex4 (pre @ s) (length pre + i + 3) = parseHex4 s (i + 3)"
    using nth_append_length_plus [of pre s "i + 1"] nth_append_length_plus [of pre s "i + 2"]
      parseHex4_shift [of pre s "i + 3"]
    by (simp_all only: add.assoc)
  then show ?thesis unfolding doubleUnit_def by (simp only: length_append) simp
qed

lemma singleUnit_shift: "singleUnit (pre @ s) (length pre + i) = singleUnit s i"
proof -
  have "(pre @ s) ! (length pre + i + 1) = s ! (i + 1)"
    "parseHex4 (pre @ s) (length pre + i + 2) = parseHex4 s (i + 2)"
    using nth_append_length_plus [of pre s "i + 1"] parseHex4_shift [of pre s "i + 2"]
    by (simp_all only: add.assoc)
  then show ?thesis unfolding singleUnit_def by (simp only: length_append) simp
qed

lemma escapeUnit_shift: "escapeUnit (pre @ s) (length pre + i) = escapeUnit s i"
  unfolding escapeUnit_def doubleUnit_shift singleUnit_shift
  by (simp add: nth_append_length_plus)

lemma escapesLoop_shift:
  "escapesLoop (pre @ s) (length pre + i) ch buf = escapesLoop s i ch buf"
proof (induction "length s - i" arbitrary: i ch buf rule: less_induct)
  case less
  show ?case
  proof (cases "i < length s")
    case True
    show ?thesis
    proof (cases "escapeUnit s i")
      case None
      have "length s - (i + 1) < length s - i" using True by simp
      note IH = less.hyps [OF this]
      have "escapesLoop (pre @ s) (length pre + i) ch buf =
          escapesLoop (pre @ s) (length pre + i + 1) ch (buf @ [(pre @ s) ! (length pre + i)])"
        using True None by (intro escapesLoop_copy) (simp_all add: escapeUnit_shift)
      also have "\<dots> = escapesLoop s (i + 1) ch (buf @ [s ! i])"
        using IH [of ch "buf @ [s ! i]"] by (simp add: add.assoc)
      finally show ?thesis by (simp add: escapesLoop_copy [OF True None])
    next
      case (Some u)
      obtain r L where u: "u = (r, L)" by (cases u)
      have "0 < L" using escapeUnit_bound [of s i r L] Some u by auto
      then have "length s - (i + L) < length s - i" using True by simp
      note IH = less.hyps [OF this]
      have "escapesLoop (pre @ s) (length pre + i) ch buf =
          escapesLoop (pre @ s) (length pre + i + L) True (buf @ EncodeRune r)"
        using Some u by (intro escapesLoop_unit) (simp add: escapeUnit_shift)
      also have "\<dots> = escapesLoop s (i + L) True (buf @ EncodeRune r)"
        using IH [of True "buf @ EncodeRune r"] by (simp add: add.assoc)
      finally show ?thesis by (simp add: escapesLoop_unit [OF Some [unfolded u]])
    qed
  next
    case False
    then show ?thesis by (simp add: escapesLoop_stop)
  qed
qed

text \<open>The two routines as transducers of the text.\<close>

lemma decodeUnicodeCodePoints_unit:
  assumes "codePointUnit s 0 = Some r"
  shows "decodeUnicodeCodePoints s =
    EncodeRune r @ decodeUnicodeCodePoints (drop (skipSeparator s 6) s)"
proof -
  let ?k = "skipSeparator s 6"
  have k: "?k \<le> length s"
    using skipSeparator_bounds(3) [of 6 s] codePointUnit_bound [OF assms] by simp
  have "codePointsLoop s 0 False [] = codePointsLoop s ?k True (EncodeRune r)"
    using codePointsLoop_unit [OF assms, of False "[]"] by simp
  also have "\<dots> = codePointsLoop (take ?k s @ drop ?k s) (length (take ?k s) + 0) True (EncodeRune r)"
    using k by simp
  also have "\<dots> = codePointsLoop (drop ?k s) 0 True (EncodeRune r)"
    by (rule codePointsLoop_shift)
  finally show ?thesis
    by (simp add: decodeUnicodeCodePoints_eq codePointsLoop_acc [of _ _ True "EncodeRune r"])
qed

lemma decodeUnicodeCodePoints_copy:
  assumes "codePointUnit (c # s) 0 = None"
  shows "decodeUnicodeCodePoints (c # s) = c # decodeUnicodeCodePoints s"
proof -
  have "codePointsLoop (c # s) 0 False [] = codePointsLoop (c # s) (0 + 1) False ([] @ [(c # s) ! 0])"
    using assms by (intro codePointsLoop_copy) simp_all
  also have "\<dots> = codePointsLoop ([c] @ s) (length [c] + 0) False [c]" by simp
  also have "\<dots> = codePointsLoop s 0 False [c]" by (rule codePointsLoop_shift)
  finally show ?thesis
    by (simp add: decodeUnicodeCodePoints_eq codePointsLoop_acc [of _ _ False "[c]"])
qed

lemma decodeUnicodeCodePoints_Nil: "decodeUnicodeCodePoints [] = []"
  by (simp add: decodeUnicodeCodePoints_eq codePointsLoop_stop)

lemma decodeUnicodeEscapes_unit:
  assumes "escapeUnit s 0 = Some (r, L)"
  shows "decodeUnicodeEscapes s = EncodeRune r @ decodeUnicodeEscapes (drop L s)"
proof -
  have L: "L \<le> length s" using escapeUnit_bound [OF assms] by simp
  have "escapesLoop s 0 False [] = escapesLoop s L True (EncodeRune r)"
    using escapesLoop_unit [OF assms, of False "[]"] by simp
  also have "\<dots> = escapesLoop (take L s @ drop L s) (length (take L s) + 0) True (EncodeRune r)"
    using L by simp
  also have "\<dots> = escapesLoop (drop L s) 0 True (EncodeRune r)"
    by (rule escapesLoop_shift)
  finally show ?thesis
    by (simp add: decodeUnicodeEscapes_eq escapesLoop_acc [of _ _ True "EncodeRune r"])
qed

lemma decodeUnicodeEscapes_copy:
  assumes "escapeUnit (c # s) 0 = None"
  shows "decodeUnicodeEscapes (c # s) = c # decodeUnicodeEscapes s"
proof -
  have "escapesLoop (c # s) 0 False [] = escapesLoop (c # s) (0 + 1) False ([] @ [(c # s) ! 0])"
    using assms by (intro escapesLoop_copy) simp_all
  also have "\<dots> = escapesLoop ([c] @ s) (length [c] + 0) False [c]" by simp
  also have "\<dots> = escapesLoop s 0 False [c]" by (rule escapesLoop_shift)
  finally show ?thesis
    by (simp add: decodeUnicodeEscapes_eq escapesLoop_acc [of _ _ False "[c]"])
qed

lemma decodeUnicodeEscapes_Nil: "decodeUnicodeEscapes [] = []"
  by (simp add: decodeUnicodeEscapes_eq escapesLoop_stop)



lemma codePoints_copy_notU:
  "c \<noteq> CHR ''U'' \<Longrightarrow> decodeUnicodeCodePoints (c # s) = c # decodeUnicodeCodePoints s"
  by (rule decodeUnicodeCodePoints_copy) (simp add: codePointUnit_def)

lemma codePoints_copy_U:
  "h \<noteq> CHR ''+'' \<Longrightarrow>
   decodeUnicodeCodePoints (c # h # s) = c # decodeUnicodeCodePoints (h # s)"
  by (rule decodeUnicodeCodePoints_copy) (simp add: codePointUnit_def)

lemma list6: "length xs = 6 \<Longrightarrow> xs = [xs ! 0, xs ! 1, xs ! 2, xs ! 3, xs ! 4, xs ! 5]"
  by (cases xs; simp; cases "tl xs"; simp; cases "tl (tl xs)"; simp; cases "tl (tl (tl xs))"; simp;
      cases "tl (tl (tl (tl xs)))"; simp; cases "tl (tl (tl (tl (tl xs))))"; simp)

lemma list7: "length xs = 7 \<Longrightarrow> xs = [xs ! 0, xs ! 1, xs ! 2, xs ! 3, xs ! 4, xs ! 5, xs ! 6]"
  by (cases xs; simp; cases "tl xs"; simp; cases "tl (tl xs)"; simp; cases "tl (tl (tl xs))"; simp;
      cases "tl (tl (tl (tl xs)))"; simp; cases "tl (tl (tl (tl (tl xs))))"; simp;
      cases "tl (tl (tl (tl (tl (tl xs)))))"; simp)

lemma codePointUnit_0:
  "codePointUnit s 0 =
     (if 5 < length s \<and> s ! 0 = CHR ''U'' \<and> s ! 1 = CHR ''+'' then parseHex4 s 2 else None)"
  by (simp only: codePointUnit_def add_0)

lemma singleUnit_0:
  "singleUnit s 0 =
     (if 5 < length s \<and> (s ! 1 = CHR ''u'' \<or> s ! 1 = CHR ''U'') then parseHex4 s 2 else None)"
  by (simp only: singleUnit_def add_0)

lemma doubleUnit_0:
  "doubleUnit s 0 =
     (if 6 < length s \<and> s ! 1 = CHR 0x5C \<and> (s ! 2 = CHR ''u'' \<or> s ! 2 = CHR ''U'')
      then parseHex4 s 3 else None)"
  by (simp only: doubleUnit_def add_0)

lemma parseHex4_Some_hex:
  assumes "parseHex4 s k = Some r"
  shows "isHexChar (s ! k)" "isHexChar (s ! (k + 1))" "isHexChar (s ! (k + 2))"
    "isHexChar (s ! (k + 3))" "k + 4 \<le> length s"
  using assms parseHex4_None_iff [of s k] by auto

text \<open>The shape of a text that the escape routine takes for one unit.\<close>

lemma escapeUnit_shape:
  assumes "escapeUnit esc 0 = Some (r, length esc)"
  obtains (single) u a b c d where "esc = [CHR 0x5C, u, a, b, c, d]"
      "u = CHR ''u'' \<or> u = CHR ''U''" "isHexChar a" "isHexChar b" "isHexChar c" "isHexChar d"
  | (double) u a b c d where "esc = [CHR 0x5C, CHR 0x5C, u, a, b, c, d]"
      "u = CHR ''u'' \<or> u = CHR ''U''" "isHexChar a" "isHexChar b" "isHexChar c" "isHexChar d"
proof -
  from assms have b0: "esc ! 0 = CHR 0x5C" by (auto simp: escapeUnit_def split: if_splits)
  from escapeUnit_bound [OF assms] consider "length esc = 6" | "length esc = 7" by auto
  then show ?thesis
  proof cases
    case 1
    with assms have "singleUnit esc 0 = Some r"
      by (auto simp: escapeUnit_def split: if_splits option.splits)
    then have u: "esc ! 1 = CHR ''u'' \<or> esc ! 1 = CHR ''U''" and p: "parseHex4 esc 2 = Some r"
      unfolding singleUnit_0 by (auto split: if_splits)
    from parseHex4_Some_hex [OF p]
    have h: "isHexChar (esc ! 2)" "isHexChar (esc ! 3)" "isHexChar (esc ! 4)" "isHexChar (esc ! 5)"
      by simp_all
    have e: "esc = [CHR 0x5C, esc ! 1, esc ! 2, esc ! 3, esc ! 4, esc ! 5]"
      using list6 [OF 1] b0 by simp
    show ?thesis by (rule single [OF e u h])
  next
    case 2
    with assms have "doubleUnit esc 0 = Some r"
      by (auto simp: escapeUnit_def split: if_splits option.splits)
    then have b1: "esc ! 1 = CHR 0x5C" and u: "esc ! 2 = CHR ''u'' \<or> esc ! 2 = CHR ''U''"
      and p: "parseHex4 esc 3 = Some r"
      unfolding doubleUnit_0 by (auto split: if_splits)
    from parseHex4_Some_hex [OF p]
    have h: "isHexChar (esc ! 3)" "isHexChar (esc ! 4)" "isHexChar (esc ! 5)" "isHexChar (esc ! 6)"
      by simp_all
    have e: "esc = [CHR 0x5C, CHR 0x5C, esc ! 2, esc ! 3, esc ! 4, esc ! 5, esc ! 6]"
      using list7 [OF 2] b0 b1 by simp
    show ?thesis by (rule double [OF e u h])
  qed
qed

lemma codePoints_pass_escape:
  assumes "escapeUnit esc 0 = Some (r, length esc)"
  shows "decodeUnicodeCodePoints (esc @ post) = esc @ decodeUnicodeCodePoints post"
proof -
  have hexU: "isHexChar x \<Longrightarrow> x \<noteq> CHR ''U''" "isHexChar x \<Longrightarrow> x \<noteq> CHR ''+''" for x
    by (auto dest: isHexChar_neq)
  from assms show ?thesis
  proof (cases rule: escapeUnit_shape)
    case (single u a b c d)
    then show ?thesis
      by (simp add: codePoints_copy_notU codePoints_copy_U hexU)
  next
    case (double u a b c d)
    then show ?thesis
      by (simp add: codePoints_copy_notU codePoints_copy_U hexU)
  qed
qed

lemma codePoints_keep_escape:
  assumes "escapeUnit esc 0 = Some (r, length esc)"
  shows "\<exists>out. decodeUnicodeCodePoints (pre @ esc @ post) = out @ esc @ decodeUnicodeCodePoints post"
proof (induction "length pre" arbitrary: pre rule: less_induct)
  case less
  have e0: "esc \<noteq> []" "esc ! 0 = CHR 0x5C"
    using assms by (auto simp: escapeUnit_def split: if_splits)
  let ?s = "pre @ esc @ post"
  show ?case
  proof (cases pre)
    case Nil
    then show ?thesis using codePoints_pass_escape [OF assms, of post] by simp
  next
    case (Cons c pre')
    show ?thesis
    proof (cases "codePointUnit ?s 0")
      case None
      from less [of pre'] Cons obtain out where
        "decodeUnicodeCodePoints (pre' @ esc @ post) = out @ esc @ decodeUnicodeCodePoints post"
        by auto
      then have "decodeUnicodeCodePoints ?s = (c # out) @ esc @ decodeUnicodeCodePoints post"
        using decodeUnicodeCodePoints_copy [of c "pre' @ esc @ post"] None Cons by simp
      then show ?thesis by blast
    next
      case (Some r')
      then have unit: "?s ! 0 = CHR ''U''" "?s ! 1 = CHR ''+''" and p: "parseHex4 ?s 2 = Some r'"
        unfolding codePointUnit_0 by (auto split: if_splits)
      from parseHex4_Some_hex [OF p]
      have hx: "isHexChar (?s ! 2)" "isHexChar (?s ! 3)" "isHexChar (?s ! 4)" "isHexChar (?s ! 5)"
        by simp_all
      have at: "?s ! length pre = CHR 0x5C" using e0 by (simp add: nth_append)
      have nb: "?s ! k \<noteq> CHR 0x5C" if "k < 6" for k
      proof -
        from that have "k = 0 \<or> k = 1 \<or> k = 2 \<or> k = 3 \<or> k = 4 \<or> k = 5" by arith
        with unit(1,2) hx show ?thesis by (auto dest: isHexChar_neq)
      qed
      have six: "6 \<le> length pre"
      proof (rule ccontr)
        assume "\<not> 6 \<le> length pre"
        then have "length pre < 6" by simp
        from nb [OF this] at show False by simp
      qed
      let ?k = "skipSeparator ?s 6"
      have k: "?k \<le> length pre"
      proof (cases "?k = 6")
        case True
        with six show ?thesis by simp
      next
        case False
        then have "?k = 7" "?s ! 6 = CHR '' '' \<or> ?s ! 6 = CHR 0x09"
          by (auto simp: skipSeparator_def split: if_splits)
        moreover from this at have "length pre \<noteq> 6" by auto
        ultimately show ?thesis using six by simp
      qed
      have pos: "0 < ?k" using skipSeparator_bounds(1) [of 6 ?s] by simp
      have "length (drop ?k pre) < length pre" using pos six by simp
      from less [OF this] obtain out where
        "decodeUnicodeCodePoints (drop ?k pre @ esc @ post) = out @ esc @ decodeUnicodeCodePoints post"
        by auto
      moreover have "drop ?k ?s = drop ?k pre @ esc @ post" using k by simp
      ultimately have "decodeUnicodeCodePoints ?s =
          (EncodeRune r' @ out) @ esc @ decodeUnicodeCodePoints post"
        using decodeUnicodeCodePoints_unit [OF Some] by simp
      then show ?thesis by blast
    qed
  qed
qed

lemma hexDigits4_nth:
  assumes "hexDigits4 d"
  shows "length d = 4" "isHexChar (d ! 0)" "isHexChar (d ! 1)" "isHexChar (d ! 2)" "isHexChar (d ! 3)"
  using assms by (auto simp: hexDigits4_def list_all_length)

lemma parseHex4_digits:
  assumes "hexDigits4 d"
  shows "parseHex4 (p @ d @ rest) (length p) = Some (runeOf d)"
proof -
  note h = hexDigits4_nth [OF assms]
  have n: "(d @ rest) ! 0 = d ! 0" "(d @ rest) ! (0 + 1) = d ! 1" "(d @ rest) ! (0 + 2) = d ! 2"
    "(d @ rest) ! (0 + 3) = d ! 3"
    using h(1) by (simp_all add: nth_append eval_nat_numeral)
  have "parseHex4 (d @ rest) 0 = Some (of_nat (hex4Value ((d @ rest) ! 0) ((d @ rest) ! (0 + 1))
      ((d @ rest) ! (0 + 2)) ((d @ rest) ! (0 + 3))))"
    by (rule parseHex4_hex) (use h in \<open>simp_all only: n\<close>, simp)
  then have "parseHex4 (d @ rest) 0 = Some (runeOf d)"
    by (simp only: n runeOf_def)
  then show ?thesis using parseHex4_shift [of p "d @ rest" 0] by simp
qed

lemma escapeUnit_piece:
  assumes "escapePiece (Unit p d)"
  shows "escapeUnit (p @ d @ rest) 0 = Some (runeOf d, length (p @ d))"
proof -
  from assms have hd: "hexDigits4 d" by simp
  note len = hexDigits4_nth(1) [OF hd]
  from assms consider "p = [CHR 0x5C, CHR ''u'']" | "p = [CHR 0x5C, CHR ''U'']"
    | "p = [CHR 0x5C, CHR 0x5C, CHR ''u'']" | "p = [CHR 0x5C, CHR 0x5C, CHR ''U'']"
    by auto
  then show ?thesis
  proof cases
    case 1
    have "parseHex4 (p @ d @ rest) 2 = Some (runeOf d)"
      using parseHex4_digits [OF hd, of p rest] 1 by (simp add: eval_nat_numeral)
    then show ?thesis using 1 len by (simp add: escapeUnit_def doubleUnit_0 singleUnit_0)
  next
    case 2
    have "parseHex4 (p @ d @ rest) 2 = Some (runeOf d)"
      using parseHex4_digits [OF hd, of p rest] 2 by (simp add: eval_nat_numeral)
    then show ?thesis using 2 len by (simp add: escapeUnit_def doubleUnit_0 singleUnit_0)
  next
    case 3
    have "parseHex4 (p @ d @ rest) 3 = Some (runeOf d)"
      using parseHex4_digits [OF hd, of p rest] 3 by (simp add: eval_nat_numeral)
    then show ?thesis using 3 len by (simp add: escapeUnit_def doubleUnit_0 singleUnit_0)
  next
    case 4
    have "parseHex4 (p @ d @ rest) 3 = Some (runeOf d)"
      using parseHex4_digits [OF hd, of p rest] 4 by (simp add: eval_nat_numeral)
    then show ?thesis using 4 len by (simp add: escapeUnit_def doubleUnit_0 singleUnit_0)
  qed
qed

lemma escapes_text:
  "CHR 0x5C \<notin> set t \<Longrightarrow> decodeUnicodeEscapes (t @ rest) = t @ decodeUnicodeEscapes rest"
proof (induction t)
  case Nil
  then show ?case by simp
next
  case (Cons c t)
  then have "escapeUnit (c # t @ rest) 0 = None" by (auto simp: escapeUnit_def)
  then have "decodeUnicodeEscapes (c # t @ rest) = c # decodeUnicodeEscapes (t @ rest)"
    by (rule decodeUnicodeEscapes_copy)
  with Cons show ?case by simp
qed

lemma escapes_pieces:
  "list_all escapePiece ps \<Longrightarrow>
   decodeUnicodeEscapes (concat (map pieceText ps)) = concat (map pieceOut ps)"
proof (induction ps)
  case Nil
  then show ?case by (simp add: decodeUnicodeEscapes_Nil)
next
  case (Cons x ps)
  show ?case
  proof (cases x)
    case (Text t)
    with Cons show ?thesis by (simp add: escapes_text)
  next
    case (Unit p d)
    let ?rest = "concat (map pieceText ps)"
    have "escapeUnit (p @ d @ ?rest) 0 = Some (runeOf d, length (p @ d))"
      using Cons.prems Unit by (intro escapeUnit_piece) simp
    from decodeUnicodeEscapes_unit [OF this]
    have "decodeUnicodeEscapes (p @ d @ ?rest) = EncodeRune (runeOf d) @ decodeUnicodeEscapes ?rest"
      by simp
    with Cons Unit show ?thesis by simp
  qed
qed

lemma codePoints_text:
  "CHR ''U'' \<notin> set t \<Longrightarrow> decodeUnicodeCodePoints (t @ rest) = t @ decodeUnicodeCodePoints rest"
  by (induction t) (auto simp: codePoints_copy_notU)

lemma codePoints_units:
  assumes "hexDigits4 d"
    and "\<forall>(sep, d') \<in> set ds. (sep = CHR '' '' \<or> sep = CHR 0x09) \<and> hexDigits4 d'"
  shows "decodeUnicodeCodePoints (codePointText [] d ds) = codePointOut [] d ds"
  using assms
proof (induction ds arbitrary: d)
  case Nil
  let ?s = "''U+'' @ d"
  have len: "length d = 4" using Nil(1) by (rule hexDigits4_nth(1))
  have "parseHex4 (''U+'' @ d @ []) (length ''U+'') = Some (runeOf d)"
    using Nil(1) by (rule parseHex4_digits)
  then have "parseHex4 ?s 2 = Some (runeOf d)" by (simp add: eval_nat_numeral)
  then have u: "codePointUnit ?s 0 = Some (runeOf d)"
    using len by (simp add: codePointUnit_0)
  have "skipSeparator ?s 6 = 6" using len by (simp add: skipSeparator_def)
  with decodeUnicodeCodePoints_unit [OF u] len show ?case
    by (simp add: codePointText_def codePointOut_def decodeUnicodeCodePoints_Nil)
next
  case (Cons x ds)
  obtain sep d' where x: "x = (sep, d')" by (cases x)
  from Cons.prems(2) x have sep: "sep = CHR '' '' \<or> sep = CHR 0x09" and hd': "hexDigits4 d'"
    and rest: "\<forall>(sep, d') \<in> set ds. (sep = CHR '' '' \<or> sep = CHR 0x09) \<and> hexDigits4 d'"
    by auto
  let ?tail = "concat (map (\<lambda>(sep, d'). sep # ''U+'' @ d') ds)"
  let ?s = "''U+'' @ d @ sep # ''U+'' @ d' @ ?tail"
  have len: "length d = 4" "length d' = 4"
    using Cons.prems(1) hd' by (simp_all add: hexDigits4_nth(1))
  have "parseHex4 (''U+'' @ d @ (sep # ''U+'' @ d' @ ?tail)) (length ''U+'') = Some (runeOf d)"
    using Cons.prems(1) by (rule parseHex4_digits)
  then have "parseHex4 ?s 2 = Some (runeOf d)" by (simp add: eval_nat_numeral)
  then have u: "codePointUnit ?s 0 = Some (runeOf d)"
    using len by (simp add: codePointUnit_0)
  have "skipSeparator ?s 6 = 7"
    using len sep by (auto simp: skipSeparator_def nth_append nth_Cons')
  with decodeUnicodeCodePoints_unit [OF u] len
  have "decodeUnicodeCodePoints ?s =
      EncodeRune (runeOf d) @ decodeUnicodeCodePoints (''U+'' @ d' @ ?tail)"
    by simp
  moreover have "decodeUnicodeCodePoints (codePointText [] d' ds) = codePointOut [] d' ds"
    using hd' rest by (rule Cons.IH)
  ultimately show ?case
    by (simp add: codePointText_def codePointOut_def x)
qed

lemma Contains_appendI: "Contains (ps @ xs @ ss) xs"
  by (simp add: Contains_def)

lemma Contains_mid: "Contains m xs \<Longrightarrow> Contains (ps @ m @ ss) xs"
proof -
  assume "Contains m xs"
  then obtain a b where "m = a @ xs @ b" by (auto simp: Contains_def sublist_def)
  then have "ps @ m @ ss = (ps @ a) @ xs @ (b @ ss)" by simp
  then show ?thesis unfolding Contains_def by (metis sublist_appendI)
qed

lemma escape_piece_Contains:
  assumes "list_all escapePiece ps" and "list_ex isUnit ps"
  shows "Contains (concat (map pieceText ps)) [CHR 0x5C, CHR ''u''] \<or>
    Contains (concat (map pieceText ps)) [CHR 0x5C, CHR ''U'']"
proof -
  from assms(2) obtain x where x: "x \<in> set ps" "isUnit x" by (auto simp: list_ex_iff)
  from x(2) obtain p d where u: "x = Unit p d" by (cases x) auto
  with assms(1) x(1) have "escapePiece (Unit p d)" by (auto simp: list_all_iff)
  then consider "p = [CHR 0x5C, CHR ''u'']" | "p = [CHR 0x5C, CHR ''U'']"
    | "p = [CHR 0x5C, CHR 0x5C, CHR ''u'']" | "p = [CHR 0x5C, CHR 0x5C, CHR ''U'']"
    by auto
  then have here: "Contains (pieceText x) [CHR 0x5C, CHR ''u''] \<or>
      Contains (pieceText x) [CHR 0x5C, CHR ''U'']"
  proof cases
    case 1
    have "Contains ([] @ [CHR 0x5C, CHR ''u''] @ d) [CHR 0x5C, CHR ''u'']" by (rule Contains_appendI)
    with 1 u show ?thesis by simp
  next
    case 2
    have "Contains ([] @ [CHR 0x5C, CHR ''U''] @ d) [CHR 0x5C, CHR ''U'']" by (rule Contains_appendI)
    with 2 u show ?thesis by simp
  next
    case 3
    have "Contains ([CHR 0x5C] @ [CHR 0x5C, CHR ''u''] @ d) [CHR 0x5C, CHR ''u'']"
      by (rule Contains_appendI)
    with 3 u show ?thesis by simp
  next
    case 4
    have "Contains ([CHR 0x5C] @ [CHR 0x5C, CHR ''U''] @ d) [CHR 0x5C, CHR ''U'']"
      by (rule Contains_appendI)
    with 4 u show ?thesis by simp
  qed
  from x(1) obtain as bs where "ps = as @ x # bs" by (auto dest: split_list)
  then have "concat (map pieceText ps) =
      concat (map pieceText as) @ pieceText x @ concat (map pieceText bs)"
    by simp
  with here show ?thesis by (auto intro: Contains_mid)
qed

lemma unat_rune: "n < 2 ^ 32 \<Longrightarrow> unat (of_nat n :: rune) = n"
  by (simp add: unat_of_nat take_bit_nat_eq_self)

lemma and_63: "(x::nat) AND 63 = x mod 64"
proof -
  have "(63::nat) = mask 6" by (simp add: mask_eq_exp_minus_1)
  then have "x AND 63 = take_bit 6 x" by (simp add: take_bit_eq_mask)
  then show ?thesis by (simp add: take_bit_eq_mod)
qed

lemma unat_byte: "unat (ucast (r :: rune) :: 8 word) = unat r mod 256"
  by (simp add: unsigned_ucast_eq take_bit_eq_mod)

lemma unat_low: "unat ((ucast (r :: rune) :: 8 word) AND 0x3F) = unat r mod 64"
proof -
  have "unat ((ucast r :: 8 word) AND 0x3F) = unat (ucast r :: 8 word) AND unat (0x3F :: 8 word)"
    by (rule unsigned_and_eq)
  also have "\<dots> = (unat r mod 256) mod 64" by (simp add: unat_byte and_63)
  also have "\<dots> = unat r mod 64" by (simp add: mod_mod_cancel)
  finally show ?thesis .
qed

lemma or_128: "m < 64 \<Longrightarrow> (128::nat) OR m = 128 + m"
  using or_low_nat [of m 7 1] by simp

lemma or_192: "m < 64 \<Longrightarrow> (192::nat) OR m = 192 + m"
  using or_low_nat [of m 6 3] by simp

lemma or_224: "m < 32 \<Longrightarrow> (224::nat) OR m = 224 + m"
  using or_low_nat [of m 5 7] by simp

lemma cont_byte:
  "byteChar (0x80 OR ((ucast (r :: rune) :: 8 word) AND 0x3F)) = char_of (0x80 + unat r mod 64)"
proof -
  have "unat (0x80 OR ((ucast r :: 8 word) AND 0x3F)) =
      unat (0x80 :: 8 word) OR unat ((ucast r :: 8 word) AND 0x3F)"
    by (rule unsigned_or_eq)
  also have "\<dots> = 128 OR (unat r mod 64)" by (simp add: unat_low)
  also have "\<dots> = 128 + unat r mod 64" by (rule or_128) simp
  finally show ?thesis by (simp add: byteChar_def)
qed

lemma unat_shift_byte:
  "unat (ucast (drop_bit k (r :: rune)) :: 8 word) = (unat r div 2 ^ k) mod 256"
proof -
  have "unat (ucast (drop_bit k r) :: 8 word) = take_bit 8 (unat (drop_bit k r))"
    by (simp only: unsigned_ucast_eq) simp
  also have "\<dots> = take_bit 8 (drop_bit k (unat r))" by (simp only: unat_drop_bit_eq)
  also have "\<dots> = (unat r div 2 ^ k) mod 256" by (simp add: take_bit_eq_mod drop_bit_eq_div)
  finally show ?thesis .
qed

lemma lead2_byte:
  assumes "unat (r :: rune) < 0x800"
  shows "byteChar (0xC0 OR ucast (drop_bit 6 r)) = char_of (0xC0 + unat r div 64)"
proof -
  have d: "unat r div 64 < 32" using assms by simp
  have "unat (0xC0 OR (ucast (drop_bit 6 r) :: 8 word)) =
      unat (0xC0 :: 8 word) OR unat (ucast (drop_bit 6 r) :: 8 word)"
    by (rule unsigned_or_eq)
  also have "\<dots> = 192 OR (unat r div 64)" using d by (simp add: unat_shift_byte)
  also have "\<dots> = 192 + unat r div 64" using d by (intro or_192) simp
  finally show ?thesis by (simp add: byteChar_def)
qed

lemma lead3_byte:
  assumes "unat (r :: rune) < 0x10000"
  shows "byteChar (0xE0 OR ucast (drop_bit 12 r)) = char_of (0xE0 + unat r div 4096)"
proof -
  have d: "unat r div 4096 < 16" using assms by simp
  have "unat (0xE0 OR (ucast (drop_bit 12 r) :: 8 word)) =
      unat (0xE0 :: 8 word) OR unat (ucast (drop_bit 12 r) :: 8 word)"
    by (rule unsigned_or_eq)
  also have "\<dots> = 224 OR (unat r div 4096)" using d by (simp add: unat_shift_byte)
  also have "\<dots> = 224 + unat r div 4096" using d by (intro or_224) simp
  finally show ?thesis by (simp add: byteChar_def)
qed

lemma mid_byte:
  "byteChar (0x80 OR ((ucast (drop_bit 6 (r :: rune)) :: 8 word) AND 0x3F)) =
     char_of (0x80 + unat r div 64 mod 64)"
proof -
  have "unat (drop_bit 6 r) = drop_bit 6 (unat r)" by (simp only: unat_drop_bit_eq)
  then have "unat (drop_bit 6 r) = unat r div 64" by (simp add: drop_bit_eq_div)
  with cont_byte [of "drop_bit 6 r"] show ?thesis by simp
qed

lemma EncodeRune_utf8:
  assumes "n < 0x10000" and "\<not> (0xD800 \<le> n \<and> n \<le> 0xDFFF)"
  shows "EncodeRune (of_nat n) = utf8 n"
proof -
  let ?r = "of_nat n :: rune"
  have u: "unat ?r = n" using assms(1) by (intro unat_rune) simp
  have le: "?r \<le> w \<longleftrightarrow> n \<le> unat w" "w \<le> ?r \<longleftrightarrow> unat w \<le> n" "?r > w \<longleftrightarrow> n > unat w" for w
    by (simp_all add: word_le_nat_alt word_less_nat_alt u)
  have b1: "byteChar (ucast ?r) = char_of n"
    by (simp add: byteChar_def unat_byte u)
  show ?thesis
    using assms lead2_byte [of ?r] lead3_byte [of ?r] cont_byte [of ?r] mid_byte [of ?r]
    by (auto simp: EncodeRune_def encode3_def utf8_def le u b1)
qed

lemma encode3_FFFD: "encode3 0xFFFD = utf8 0xFFFD"
  by (simp add: encode3_def utf8_def byteChar_def)

lemma EncodeRune_surrogate:
  assumes "0xD800 \<le> n" and "n \<le> 0xDFFF"
  shows "EncodeRune (of_nat n) = utf8 0xFFFD"
proof -
  let ?r = "of_nat n :: rune"
  have u: "unat ?r = n" using assms(2) by (intro unat_rune) simp
  have a: "\<not> ?r \<le> 0x7F" using assms(1) by (simp only: word_le_nat_alt u) simp
  have b: "\<not> ?r \<le> 0x7FF" using assms(1) by (simp only: word_le_nat_alt u) simp
  have c: "0xD800 \<le> ?r" using assms(1) by (simp only: word_le_nat_alt u) simp
  have d: "?r \<le> 0xDFFF" using assms(2) by (simp only: word_le_nat_alt u) simp
  have "EncodeRune ?r = encode3 0xFFFD"
    unfolding EncodeRune_def using a b c d by (simp only: if_False if_True simp_thms)
  then show ?thesis by (simp only: encode3_FFFD)
qed

lemma codePointOf_less: "codePointOf d < 0x10000"
  using digitValue_less [of "d ! 0"] digitValue_less [of "d ! 1"] digitValue_less [of "d ! 2"]
    digitValue_less [of "d ! 3"]
  by (simp add: codePointOf_def hex4Value_def)

lemma runeOf_codePointOf: "runeOf d = of_nat (codePointOf d)"
  by (simp add: runeOf_def codePointOf_def)

lemma unit_rune:
  assumes h: "hexDigits4 d"
  shows "parseHex4 (p @ d @ rest) (length p) = Some (runeOf d) \<and>
    runeOf d = of_nat (codePointOf d) \<and>
    EncodeRune (runeOf d) =
      (if 0xD800 \<le> codePointOf d \<and> codePointOf d \<le> 0xDFFF then utf8 0xFFFD
       else utf8 (codePointOf d))"
proof (intro conjI)
  show "parseHex4 (p @ d @ rest) (length p) = Some (runeOf d)"
    using h by (rule parseHex4_digits)
  show "runeOf d = of_nat (codePointOf d)" by (rule runeOf_codePointOf)
  show "EncodeRune (runeOf d) =
      (if 0xD800 \<le> codePointOf d \<and> codePointOf d \<le> 0xDFFF then utf8 0xFFFD
       else utf8 (codePointOf d))"
  proof (cases "0xD800 \<le> codePointOf d \<and> codePointOf d \<le> 0xDFFF")
    case True
    have "EncodeRune (of_nat (codePointOf d)) = utf8 0xFFFD"
      using True by (intro EncodeRune_surrogate) simp_all
    with True show ?thesis by (simp add: runeOf_codePointOf)
  next
    case False
    have "EncodeRune (of_nat (codePointOf d)) = utf8 (codePointOf d)"
      using codePointOf_less False by (rule EncodeRune_utf8)
    with False show ?thesis by (simp only: runeOf_codePointOf if_False)
  qed
qed

section \<open>The length of the decoded text\<close>








lemma escapes_unit_text:
  assumes "escapePiece (Unit q d)"
  shows "decodeUnicodeEscapes (q @ d @ rest) = EncodeRune (runeOf d) @ decodeUnicodeEscapes rest"
  using decodeUnicodeEscapes_unit [OF escapeUnit_piece [OF assms, of rest]] by simp

lemma escapes_copy_text:
  "x \<noteq> CHR 0x5C \<Longrightarrow> decodeUnicodeEscapes (x # rest) = x # decodeUnicodeEscapes rest"
  by (intro decodeUnicodeEscapes_copy) (simp add: escapeUnit_def)

lemma dropSeparator_eq:
  assumes "length p = 6"
  shows "drop (skipSeparator (p @ rest) 6) (p @ rest) = dropSeparator rest"
proof -
  have "skipSeparator (p @ rest) (length p + 0) = length p + skipSeparator rest 0"
    by (rule skipSeparator_shift)
  then have "drop (skipSeparator (p @ rest) 6) (p @ rest) = drop (skipSeparator rest 0) rest"
    using assms by simp
  also have "\<dots> = dropSeparator rest"
    by (auto simp: skipSeparator_def dropSeparator_def drop_Suc numeral_2_eq_2)
  finally show ?thesis .
qed

lemma codePoints_unit_text:
  assumes "hexDigits4 d"
  shows "decodeUnicodeCodePoints (''U+'' @ d @ rest) =
    EncodeRune (runeOf d) @ decodeUnicodeCodePoints (dropSeparator rest)"
proof -
  note len = hexDigits4_nth(1) [OF assms]
  have "parseHex4 (''U+'' @ d @ rest) (length ''U+'') = Some (runeOf d)"
    using assms by (rule parseHex4_digits)
  then have "codePointUnit (''U+'' @ d @ rest) 0 = Some (runeOf d)"
    using len by (simp add: codePointUnit_0 numeral_2_eq_2)
  from decodeUnicodeCodePoints_unit [OF this]
  have "decodeUnicodeCodePoints (''U+'' @ d @ rest) = EncodeRune (runeOf d) @
      decodeUnicodeCodePoints (drop (skipSeparator ((''U+'' @ d) @ rest) 6) ((''U+'' @ d) @ rest))"
    by simp
  also have "drop (skipSeparator ((''U+'' @ d) @ rest) 6) ((''U+'' @ d) @ rest) = dropSeparator rest"
    using len by (intro dropSeparator_eq) simp
  finally show ?thesis .
qed

section \<open>The text of a unit that parses\<close>

lemma take2_nth: "1 < length s \<Longrightarrow> take 2 s = [s ! 0, s ! 1]"
  by (intro nth_equalityI) (auto simp: less_Suc_eq numeral_2_eq_2)

lemma take3_nth: "2 < length s \<Longrightarrow> take 3 s = [s ! 0, s ! 1, s ! 2]"
  by (intro nth_equalityI) (auto simp: less_Suc_eq numeral_3_eq_3 numeral_2_eq_2)

lemma parseHex4_Some_digits:
  assumes "parseHex4 s n = Some r"
  shows "hexDigits4 (take 4 (drop n s))" and "r = runeOf (take 4 (drop n s))"
    and "s = take n s @ take 4 (drop n s) @ drop (n + 4) s"
proof -
  note h = parseHex4_Some_hex [OF assms]
  let ?d = "take 4 (drop n s)"
  have len: "length ?d = 4" using h(5) by simp
  have nth: "?d ! i = s ! (n + i)" if "i < 4" for i using that h(5) by simp
  have "isHexChar (?d ! i)" if "i < 4" for i
  proof -
    from that consider "i = 0" | "i = 1" | "i = 2" | "i = 3" by linarith
    then show ?thesis using h(1-4) nth [OF that] by cases simp_all
  qed
  then show hd: "hexDigits4 ?d" using len by (simp add: hexDigits4_def list_all_length)
  show dec: "s = take n s @ ?d @ drop (n + 4) s"
    by (metis add.commute append_take_drop_id drop_drop)
  have "length (take n s) = n" using h(5) by simp
  then have "parseHex4 (take n s @ ?d @ drop (n + 4) s) n = Some (runeOf ?d)"
    using parseHex4_digits [OF hd, of "take n s" "drop (n + 4) s"] by simp
  with dec assms show "r = runeOf ?d" by simp
qed

lemma codePointUnit_Some_text:
  assumes "codePointUnit s 0 = Some r"
  shows "\<exists>d rest. s = ''U+'' @ d @ rest \<and> hexDigits4 d \<and> r = runeOf d"
proof -
  from assms have g: "5 < length s" "s ! 0 = CHR ''U''" "s ! 1 = CHR ''+''"
    and p: "parseHex4 s 2 = Some r"
    by (auto simp: codePointUnit_0 split: if_splits)
  note d = parseHex4_Some_digits [OF p]
  have "take 2 s = [s ! 0, s ! 1]"
    using g(1) by (intro take2_nth) simp
  with g have "take 2 s = ''U+''" by simp
  with d(3) have "s = ''U+'' @ take 4 (drop 2 s) @ drop (2 + 4) s" by simp
  with d(1,2) show ?thesis by blast
qed

lemma escapeUnit_Some_text:
  assumes "escapeUnit s 0 = Some (r, L)"
  shows "\<exists>q d rest. s = q @ d @ rest \<and> escapePiece (Unit q d) \<and> r = runeOf d \<and>
    L = length (q @ d)"
proof -
  from assms have b: "0 < length s" "s ! 0 = CHR 0x5C"
    by (auto simp: escapeUnit_def split: if_splits)
  show ?thesis
  proof (cases "doubleUnit s 0")
    case (Some r')
    with assms b have rl: "r' = r" "L = 7" by (auto simp: escapeUnit_def)
    from Some have g: "6 < length s" "s ! 1 = CHR 0x5C" "s ! 2 = CHR ''u'' \<or> s ! 2 = CHR ''U''"
      and p: "parseHex4 s 3 = Some r'"
      by (auto simp: doubleUnit_0 split: if_splits)
    note d = parseHex4_Some_digits [OF p]
    have t: "take 3 s = [s ! 0, s ! 1, s ! 2]"
      using g(1) by (intro take3_nth) simp
    have "escapePiece (Unit (take 3 s) (take 4 (drop 3 s)))"
      using t b(2) g(2,3) d(1) by auto
    moreover have "L = length (take 3 s @ take 4 (drop 3 s))" using rl g(1) by simp
    ultimately show ?thesis using d(2,3) rl(1) by blast
  next
    case None
    with assms b obtain r' where s1: "singleUnit s 0 = Some r'" and rl: "r' = r" "L = 6"
      by (auto simp: escapeUnit_def split: option.splits)
    from s1 have g: "5 < length s" "s ! 1 = CHR ''u'' \<or> s ! 1 = CHR ''U''"
      and p: "parseHex4 s 2 = Some r'"
      by (auto simp: singleUnit_0 split: if_splits)
    note d = parseHex4_Some_digits [OF p]
    have t: "take 2 s = [s ! 0, s ! 1]"
      using g(1) by (intro take2_nth) simp
    have "escapePiece (Unit (take 2 s) (take 4 (drop 2 s)))"
      using t b(2) g(2) d(1) by auto
    moreover have "L = length (take 2 s @ take 4 (drop 2 s))" using rl g(1) by simp
    ultimately show ?thesis using d(2,3) rl(1) by blast
  qed
qed

lemma codePointUnit_text:
  assumes "hexDigits4 d"
  shows "codePointUnit (''U+'' @ d @ rest) 0 = Some (runeOf d)"
proof -
  note len = hexDigits4_nth(1) [OF assms]
  have "parseHex4 (''U+'' @ d @ rest) (length ''U+'') = Some (runeOf d)"
    using assms by (rule parseHex4_digits)
  then show ?thesis using len by (simp add: codePointUnit_0 numeral_2_eq_2)
qed

lemma codePointUnit_iff:
  "codePointUnit s 0 \<noteq> None \<longleftrightarrow> (\<exists>d rest. s = ''U+'' @ d @ rest \<and> hexDigits4 d)"
proof
  assume "codePointUnit s 0 \<noteq> None"
  then obtain r where "codePointUnit s 0 = Some r" by auto
  from codePointUnit_Some_text [OF this] show "\<exists>d rest. s = ''U+'' @ d @ rest \<and> hexDigits4 d"
    by blast
next
  assume "\<exists>d rest. s = ''U+'' @ d @ rest \<and> hexDigits4 d"
  then obtain d rest where "s = ''U+'' @ d @ rest" "hexDigits4 d" by blast
  then show "codePointUnit s 0 \<noteq> None" using codePointUnit_text [of d rest] by simp
qed

lemma escapeUnit_iff:
  "escapeUnit s 0 \<noteq> None \<longleftrightarrow> (\<exists>q d rest. s = q @ d @ rest \<and> escapePiece (Unit q d))"
proof
  assume "escapeUnit s 0 \<noteq> None"
  then obtain r L where "escapeUnit s 0 = Some (r, L)" by auto
  from escapeUnit_Some_text [OF this]
  show "\<exists>q d rest. s = q @ d @ rest \<and> escapePiece (Unit q d)" by blast
next
  assume "\<exists>q d rest. s = q @ d @ rest \<and> escapePiece (Unit q d)"
  then obtain q d rest where "s = q @ d @ rest" "escapePiece (Unit q d)" by blast
  then show "escapeUnit s 0 \<noteq> None" using escapeUnit_piece [of q d rest] by simp
qed


section \<open>Runs of base64 characters\<close>

text \<open>
  Claim C1, as amended.  The scanner applies the run rule wherever its cursor comes to
  stand at a base64-alphabet character that does not begin a qualifying \<open>U+XXXX\<close> group:
  with the run from there to the first character outside the alphabet, it emits a Hex
  match, the run without the \<open>=\<close> characters behind it, if the run has 32 characters or
  more and all of them are hex digits; otherwise a Base64 match, the run and up to two of
  the \<open>=\<close> characters, if the run has 16 characters or more; otherwise nothing; and no
  other candidate begins inside the run.  The cursor comes to stand at every position that
  begins the text or follows a character outside the alphabet, unless the position lies
  inside a candidate that begins before it.  A Hex match is always such a run.  With the
  half-open overlap test of the spec every candidate is returned; with an arbitrary test
  \<open>ov\<close> a candidate is returned unless \<open>ov\<close> reports that it overlaps a candidate of greater
  precedence, and nothing else is returned.  If the whole text is a run followed by any
  number \<open>k\<close> of \<open>=\<close> characters, then: an all-hex run of 32 characters or more gives one
  Hex match; otherwise a run of 16 characters or more gives one Base64 match, so that an
  all-hex run of 31 characters and any run of 16 characters give one Base64 match; and a
  run of 15 characters or fewer gives no match at all, with one exception: the six
  characters \<open>U+\<close> and four hex digits with nothing behind them are a code-point group and
  give one Unicode match.
\<close>

theorem run_classification:
  "(\<forall>m \<in> set (findEncodingMatches ov data). kind (encoding m) = hexKind \<longrightarrow>
      hexSpan data (start (startEnd m)) (end_pos (startEnd m))) \<and>
   (s \<in> set (cursors data 0) \<and> isB64Char (data ! s) \<and> \<not> qualifies data s \<longrightarrow>
      set (runMatch data s) \<subseteq> set (scanLoop data 0 []) \<and>
      (\<forall>m \<in> set (scanLoop data 0 []).
         s \<le> start (startEnd m) \<and>
         start (startEnd m) < s + length (takeWhile isB64Char (drop s data)) \<longrightarrow>
         m \<in> set (runMatch data s))) \<and>
   (s < length data \<and> (s = 0 \<or> \<not> isB64Char (data ! (s - 1))) \<and>
    (\<forall>m \<in> set (scanLoop data 0 []).
       \<not> (start (startEnd m) < s \<and> s < end_pos (startEnd m))) \<longrightarrow>
      s \<in> set (cursors data 0)) \<and>
   findEncodingMatches overlaps data = scanLoop data 0 [] \<and>
   set (findEncodingMatches ov data) \<subseteq> set (scanLoop data 0 []) \<and>
   (c \<in> set (scanLoop data 0 []) \<longrightarrow>
      c \<in> set (findEncodingMatches ov data) \<or>
      (\<exists>m' \<in> set (scanLoop data 0 []). ov (startEnd c) (startEnd m') \<and>
         precedence (encoding c) < precedence (encoding m'))) \<and>
   (run \<noteq> [] \<and> list_all isB64Char run \<longrightarrow>
      findEncodingMatches ov (run @ replicate k CHR ''='') =
        (if k = 0 \<and> length run = 6 \<and> codePointAt run 0 then [newMatch 1 0 6]
         else if list_all isHexChar run \<and> length run \<ge> 32 then [newMatch 2 0 (length run)]
         else if length run \<ge> 16 then [newMatch 3 0 (length run + min 2 k)]
         else []))"
proof -
  have 1: "\<forall>m \<in> set (findEncodingMatches ov data). kind (encoding m) = hexKind \<longrightarrow>
      hexSpan data (start (startEnd m)) (end_pos (startEnd m))"
    using output_run_kind [of _ ov data] by blast
  have 2: "s \<in> set (cursors data 0) \<and> isB64Char (data ! s) \<and> \<not> qualifies data s \<longrightarrow>
      set (runMatch data s) \<subseteq> set (scanLoop data 0 []) \<and>
      (\<forall>m \<in> set (scanLoop data 0 []).
         s \<le> start (startEnd m) \<and>
         start (startEnd m) < s + length (takeWhile isB64Char (drop s data)) \<longrightarrow>
         m \<in> set (runMatch data s))"
    using run_emitted [of s data] by blast
  have 3: "s < length data \<and> (s = 0 \<or> \<not> isB64Char (data ! (s - 1))) \<and>
    (\<forall>m \<in> set (scanLoop data 0 []).
       \<not> (start (startEnd m) < s \<and> s < end_pos (startEnd m))) \<longrightarrow>
      s \<in> set (cursors data 0)"
    using cursor_at_start [of s data] by blast
  have 4: "findEncodingMatches overlaps data = scanLoop data 0 []"
    by (rule findEncodingMatches_overlaps)
  have 5: "set (findEncodingMatches ov data) \<subseteq> set (scanLoop data 0 [])"
    by (rule findEncodingMatches_subset)
  have 6: "c \<in> set (scanLoop data 0 []) \<longrightarrow>
      c \<in> set (findEncodingMatches ov data) \<or>
      (\<exists>m' \<in> set (scanLoop data 0 []). ov (startEnd c) (startEnd m') \<and>
         precedence (encoding c) < precedence (encoding m'))"
    using candidate_kept [of c data ov] by blast
  have 7: "run \<noteq> [] \<and> list_all isB64Char run \<longrightarrow>
      findEncodingMatches ov (run @ replicate k CHR ''='') =
        (if k = 0 \<and> length run = 6 \<and> codePointAt run 0 then [newMatch 1 0 6]
         else if list_all isHexChar run \<and> length run \<ge> 32 then [newMatch 2 0 (length run)]
         else if length run \<ge> 16 then [newMatch 3 0 (length run + min 2 k)]
         else [])"
    using isolated_run [of run ov k] by blast
  from 1 2 3 4 5 6 7 show ?thesis by (intro conjI)
qed

theorem run_classification_witness:
  "4 < length ''key=aabbccdd00112233aabbccdd00112233=='' \<and>
   \<not> isB64Char (''key=aabbccdd00112233aabbccdd00112233=='' ! (4 - 1)) \<and>
   scanLoop ''key=aabbccdd00112233aabbccdd00112233=='' 0 [] = [newMatch 2 4 36] \<and>
   4 \<in> set (cursors ''key=aabbccdd00112233aabbccdd00112233=='' 0) \<and>
   isB64Char (''key=aabbccdd00112233aabbccdd00112233=='' ! 4) \<and>
   \<not> qualifies ''key=aabbccdd00112233aabbccdd00112233=='' 4 \<and>
   runMatch ''key=aabbccdd00112233aabbccdd00112233=='' 4 = [newMatch 2 4 36] \<and>
   newMatch 2 4 36 \<in> set (findEncodingMatches overlaps ''key=aabbccdd00112233aabbccdd00112233=='') \<and>
   ''aabbccdd00112233aabbccdd00112233'' \<noteq> [] \<and>
   list_all isB64Char ''aabbccdd00112233aabbccdd00112233'' \<and>
   findEncodingMatches overlaps (''aabbccdd00112233aabbccdd00112233'' @ replicate 2 CHR ''='')
     = [newMatch 2 0 32] \<and>
   kind (encoding (newMatch 2 0 32)) = hexKind \<and>
   hexSpan (''aabbccdd00112233aabbccdd00112233'' @ replicate 2 CHR ''='') 0 32 \<and>
   findEncodingMatches overlaps (''aabbccdd00112233aabbccdd0011223'' @ replicate 0 CHR ''='')
     = [newMatch 3 0 31] \<and>
   findEncodingMatches overlaps (''aBcDeFgHiJkLmNoP'' @ replicate 0 CHR ''='')
     = [newMatch 3 0 16] \<and>
   findEncodingMatches overlaps (''aBcDeFgHiJkLmNo'' @ replicate 0 CHR ''='') = []"
proof -
  let ?d = "''aabbccdd00112233aabbccdd00112233'' @ replicate 2 CHR ''=''"
  let ?t = "''key=aabbccdd00112233aabbccdd00112233==''"
  have t1: "4 < length ?t" by simp
  have t2: "\<not> isB64Char (?t ! (4 - 1))" by code_simp
  have t3: "scanLoop ?t 0 [] = [newMatch 2 4 36]" by code_simp
  have t4: "\<forall>m \<in> set (scanLoop ?t 0 []).
      \<not> (start (startEnd m) < 4 \<and> 4 < end_pos (startEnd m))"
    unfolding t3 by simp
  note th = run_classification [where ov = overlaps and data = ?t and s = 4]
  have t5: "4 \<in> set (cursors ?t 0)"
    by (rule th [THEN conjunct2, THEN conjunct2, THEN conjunct1, THEN mp])
      (intro conjI disjI2 t1 t2 t4)
  have t6: "isB64Char (?t ! 4)" by code_simp
  have t7: "\<not> qualifies ?t 4" by code_simp
  have t8: "runMatch ?t 4 = [newMatch 2 4 36]" by code_simp
  have "set (runMatch ?t 4) \<subseteq> set (scanLoop ?t 0 [])"
    by (rule th [THEN conjunct2, THEN conjunct1, THEN mp, THEN conjunct1])
      (intro conjI t5 t6 t7)
  moreover have "findEncodingMatches overlaps ?t = scanLoop ?t 0 []"
    by (rule th [THEN conjunct2, THEN conjunct2, THEN conjunct2, THEN conjunct1])
  ultimately have t9: "newMatch 2 4 36 \<in> set (findEncodingMatches overlaps ?t)"
    unfolding t8 by simp
  have a: "''aabbccdd00112233aabbccdd00112233'' \<noteq> []" by simp
  have b: "list_all isB64Char ''aabbccdd00112233aabbccdd00112233''" by code_simp
  have c: "list_all isHexChar ''aabbccdd00112233aabbccdd00112233''" by code_simp
  have a31: "''aabbccdd00112233aabbccdd0011223'' \<noteq> []" by simp
  have b31: "list_all isB64Char ''aabbccdd00112233aabbccdd0011223''" by code_simp
  have a16: "''aBcDeFgHiJkLmNoP'' \<noteq> []" by simp
  have b16: "list_all isB64Char ''aBcDeFgHiJkLmNoP''" by code_simp
  have c16: "\<not> list_all isHexChar ''aBcDeFgHiJkLmNoP''" by code_simp
  have a15: "''aBcDeFgHiJkLmNo'' \<noteq> []" by simp
  have b15: "list_all isB64Char ''aBcDeFgHiJkLmNo''" by code_simp
  have iso: "findEncodingMatches overlaps (run @ replicate k CHR ''='') =
      (if k = 0 \<and> length run = 6 \<and> codePointAt run 0 then [newMatch 1 0 6]
       else if list_all isHexChar run \<and> length run \<ge> 32 then [newMatch 2 0 (length run)]
       else if length run \<ge> 16 then [newMatch 3 0 (length run + min 2 k)]
       else [])" if "run \<noteq> []" "list_all isB64Char run" for run k
    by (rule run_classification [where ov = overlaps and run = run and k = k,
          THEN conjunct2, THEN conjunct2, THEN conjunct2, THEN conjunct2, THEN conjunct2,
          THEN conjunct2, THEN mp])
      (intro conjI that)
  have e32: "findEncodingMatches overlaps ?d = [newMatch 2 0 32]"
    using a b c iso [of "''aabbccdd00112233aabbccdd00112233''" 2] by simp
  have e31: "findEncodingMatches overlaps (''aabbccdd00112233aabbccdd0011223'' @ replicate 0 CHR ''='')
      = [newMatch 3 0 31]"
    using a31 b31 iso [of "''aabbccdd00112233aabbccdd0011223''" 0] by simp
  have e16: "findEncodingMatches overlaps (''aBcDeFgHiJkLmNoP'' @ replicate 0 CHR ''='')
      = [newMatch 3 0 16]"
    using a16 b16 c16 iso [of "''aBcDeFgHiJkLmNoP''" 0] by simp
  have e15: "findEncodingMatches overlaps (''aBcDeFgHiJkLmNo'' @ replicate 0 CHR ''='') = []"
    using a15 b15 iso [of "''aBcDeFgHiJkLmNo''" 0] by simp
  have m: "newMatch 2 0 32 \<in> set (findEncodingMatches overlaps ?d)" unfolding e32 by simp
  have k: "kind (encoding (newMatch 2 0 32)) = hexKind" by simp
  have "kind (encoding (newMatch 2 0 32)) = hexKind \<longrightarrow>
      hexSpan ?d (start (startEnd (newMatch 2 0 32))) (end_pos (startEnd (newMatch 2 0 32)))"
    using run_classification [where ov = overlaps and data = ?d, THEN conjunct1] m
    by (rule bspec)
  then have h: "hexSpan ?d 0 32" using k by simp
  from t1 t2 t3 t5 t6 t7 t8 t9 a b e32 k h e31 e16 e15 show ?thesis by (intro conjI)
qed

text \<open>
  The six characters \<open>U+0041\<close> are a run of the alphabet and give a Unicode match; a run of
  32 hex digits between two percent triplets of one line lies inside the Percent match and
  gives no match of its own.
\<close>

theorem short_run_counterexample:
  "list_all isB64Char ''U+0041'' \<and> length ''U+0041'' \<le> 15 \<and>
   findEncodingMatches overlaps ''U+0041'' = [newMatch 1 0 6] \<and>
   kind (encoding (newMatch 1 0 6)) = unicodeKind \<and>
   list_all isHexChar ''aabbccdd00112233aabbccdd00112233'' \<and>
   length ''aabbccdd00112233aabbccdd00112233'' = 32 \<and>
   findEncodingMatches overlaps (''%41 '' @ ''aabbccdd00112233aabbccdd00112233'' @ '' %42'')
     = [newMatch 0 0 40]"
  by code_simp

text \<open>
  Claim C2, as amended.  The length that decides is that of the run alone, without the
  \<open>=\<close> characters behind it.  Wherever the cursor of the scanner comes to stand at a
  base64-alphabet character, and the run from there to the first character outside the
  alphabet has 16 characters or more and is not an all-hex run of 32 characters or more,
  the scanner emits a Base64 match: the run and up to two of the \<open>=\<close> characters behind
  it.  The cursor comes to stand at every position that begins the text or follows a
  character outside the alphabet, unless the position lies inside a candidate that begins
  before it.  Every Base64 match is of this kind, so a run of fewer than 16 characters gives
  none, whatever padding follows.  With the half-open overlap test of the spec every
  candidate is returned; with an arbitrary test \<open>ov\<close> a candidate is returned unless \<open>ov\<close>
  reports that it overlaps a candidate of greater precedence, and nothing else is returned.
  If the whole text is a run followed by any number \<open>k\<close> of \<open>=\<close> characters, the scanner
  returns a Base64 match exactly when the run has 16 characters or more and is not an
  all-hex run of 32 characters or more; the match is then the only one.  A run of 14
  characters followed by \<open>==\<close> gives no match.
\<close>

theorem base64_threshold_without_padding:
  "(\<forall>m \<in> set (findEncodingMatches ov data). kind (encoding m) = base64Kind \<longrightarrow>
      base64Span data (start (startEnd m)) (end_pos (startEnd m))) \<and>
   (s \<in> set (cursors data 0) \<and> isB64Char (data ! s) \<and>
    16 \<le> length (takeWhile isB64Char (drop s data)) \<and>
    \<not> (list_all isHexChar (takeWhile isB64Char (drop s data)) \<and>
       32 \<le> length (takeWhile isB64Char (drop s data))) \<longrightarrow>
      newMatch 3 s (s + length (takeWhile isB64Char (drop s data)) +
          min 2 (length (takeWhile (\<lambda>c. c = CHR ''='')
            (drop (s + length (takeWhile isB64Char (drop s data))) data))))
        \<in> set (scanLoop data 0 [])) \<and>
   (s < length data \<and> (s = 0 \<or> \<not> isB64Char (data ! (s - 1))) \<and>
    (\<forall>m \<in> set (scanLoop data 0 []).
       \<not> (start (startEnd m) < s \<and> s < end_pos (startEnd m))) \<longrightarrow>
      s \<in> set (cursors data 0)) \<and>
   findEncodingMatches overlaps data = scanLoop data 0 [] \<and>
   set (findEncodingMatches ov data) \<subseteq> set (scanLoop data 0 []) \<and>
   (c \<in> set (scanLoop data 0 []) \<longrightarrow>
      c \<in> set (findEncodingMatches ov data) \<or>
      (\<exists>m' \<in> set (scanLoop data 0 []). ov (startEnd c) (startEnd m') \<and>
         precedence (encoding c) < precedence (encoding m'))) \<and>
   (run \<noteq> [] \<and> list_all isB64Char run \<longrightarrow>
      ((\<exists>m \<in> set (findEncodingMatches ov (run @ replicate k CHR ''='')).
          kind (encoding m) = base64Kind)
        \<longleftrightarrow> 16 \<le> length run \<and> \<not> (list_all isHexChar run \<and> 32 \<le> length run)) \<and>
      (16 \<le> length run \<and> \<not> (list_all isHexChar run \<and> 32 \<le> length run) \<longrightarrow>
         findEncodingMatches ov (run @ replicate k CHR ''='')
           = [newMatch 3 0 (length run + min 2 k)]))"
proof -
  have 1: "\<forall>m \<in> set (findEncodingMatches ov data). kind (encoding m) = base64Kind \<longrightarrow>
      base64Span data (start (startEnd m)) (end_pos (startEnd m))"
    using output_run_kind [of _ ov data] by blast
  have 2: "s \<in> set (cursors data 0) \<and> isB64Char (data ! s) \<and>
    16 \<le> length (takeWhile isB64Char (drop s data)) \<and>
    \<not> (list_all isHexChar (takeWhile isB64Char (drop s data)) \<and>
       32 \<le> length (takeWhile isB64Char (drop s data))) \<longrightarrow>
      newMatch 3 s (s + length (takeWhile isB64Char (drop s data)) +
          min 2 (length (takeWhile (\<lambda>c. c = CHR ''='')
            (drop (s + length (takeWhile isB64Char (drop s data))) data))))
        \<in> set (scanLoop data 0 [])"
    using base64_emitted [of s data] by blast
  have 3: "s < length data \<and> (s = 0 \<or> \<not> isB64Char (data ! (s - 1))) \<and>
    (\<forall>m \<in> set (scanLoop data 0 []).
       \<not> (start (startEnd m) < s \<and> s < end_pos (startEnd m))) \<longrightarrow>
      s \<in> set (cursors data 0)"
    using cursor_at_start [of s data] by blast
  have 4: "findEncodingMatches overlaps data = scanLoop data 0 []"
    by (rule findEncodingMatches_overlaps)
  have 5: "set (findEncodingMatches ov data) \<subseteq> set (scanLoop data 0 [])"
    by (rule findEncodingMatches_subset)
  have 6: "c \<in> set (scanLoop data 0 []) \<longrightarrow>
      c \<in> set (findEncodingMatches ov data) \<or>
      (\<exists>m' \<in> set (scanLoop data 0 []). ov (startEnd c) (startEnd m') \<and>
         precedence (encoding c) < precedence (encoding m'))"
    using candidate_kept [of c data ov] by blast
  have 7: "run \<noteq> [] \<and> list_all isB64Char run \<longrightarrow>
      ((\<exists>m \<in> set (findEncodingMatches ov (run @ replicate k CHR ''='')).
          kind (encoding m) = base64Kind)
        \<longleftrightarrow> 16 \<le> length run \<and> \<not> (list_all isHexChar run \<and> 32 \<le> length run)) \<and>
      (16 \<le> length run \<and> \<not> (list_all isHexChar run \<and> 32 \<le> length run) \<longrightarrow>
         findEncodingMatches ov (run @ replicate k CHR ''='')
           = [newMatch 3 0 (length run + min 2 k)])"
  proof (intro conjI impI)
    assume r: "run \<noteq> [] \<and> list_all isB64Char run"
    then have eq: "findEncodingMatches ov (run @ replicate k CHR ''='') =
      (if k = 0 \<and> length run = 6 \<and> codePointAt run 0 then [newMatch 1 0 6]
       else if list_all isHexChar run \<and> length run \<ge> 32 then [newMatch 2 0 (length run)]
       else if length run \<ge> 16 then [newMatch 3 0 (length run + min 2 k)]
       else [])"
      by (intro isolated_run) simp_all
    show "(\<exists>m \<in> set (findEncodingMatches ov (run @ replicate k CHR ''='')).
            kind (encoding m) = base64Kind)
          \<longleftrightarrow> 16 \<le> length run \<and> \<not> (list_all isHexChar run \<and> 32 \<le> length run)"
      unfolding eq by auto
    assume "16 \<le> length run \<and> \<not> (list_all isHexChar run \<and> 32 \<le> length run)"
    then show "findEncodingMatches ov (run @ replicate k CHR ''='')
        = [newMatch 3 0 (length run + min 2 k)]"
      unfolding eq by auto
  qed
  from 1 2 3 4 5 6 7 show ?thesis by (intro conjI)
qed

theorem base64_threshold_without_padding_witness:
  "6 < length ''token=aBcDeFgHiJkLmNoP== x'' \<and>
   \<not> isB64Char (''token=aBcDeFgHiJkLmNoP== x'' ! (6 - 1)) \<and>
   scanLoop ''token=aBcDeFgHiJkLmNoP== x'' 0 [] = [newMatch 3 6 24] \<and>
   6 \<in> set (cursors ''token=aBcDeFgHiJkLmNoP== x'' 0) \<and>
   takeWhile isB64Char (drop 6 ''token=aBcDeFgHiJkLmNoP== x'') = ''aBcDeFgHiJkLmNoP'' \<and>
   newMatch 3 6 24 \<in> set (findEncodingMatches overlaps ''token=aBcDeFgHiJkLmNoP== x'') \<and>
   ''aBcDeFgHiJkLmNoP'' \<noteq> [] \<and> list_all isB64Char ''aBcDeFgHiJkLmNoP'' \<and>
   16 \<le> length ''aBcDeFgHiJkLmNoP'' \<and>
   findEncodingMatches overlaps (''aBcDeFgHiJkLmNoP'' @ replicate 3 CHR ''='')
     = [newMatch 3 0 18] \<and>
   kind (encoding (newMatch 3 0 18)) = base64Kind \<and>
   base64Span (''aBcDeFgHiJkLmNoP'' @ replicate 3 CHR ''='') 0 18 \<and>
   \<not> (\<exists>m \<in> set (findEncodingMatches overlaps (''aBcDeFgHiJkLmN'' @ replicate 2 CHR ''='')).
        kind (encoding m) = base64Kind)"
proof -
  let ?d = "''aBcDeFgHiJkLmNoP'' @ replicate 3 CHR ''=''"
  let ?t = "''token=aBcDeFgHiJkLmNoP== x''"
  let ?r = "takeWhile isB64Char (drop 6 ?t)"
  note th = base64_threshold_without_padding [where ov = overlaps and data = ?t and s = 6]
  have t1: "6 < length ?t" by simp
  have t2: "\<not> isB64Char (?t ! (6 - 1))" by code_simp
  have t3: "scanLoop ?t 0 [] = [newMatch 3 6 24]" by code_simp
  have t4: "\<forall>m \<in> set (scanLoop ?t 0 []).
      \<not> (start (startEnd m) < 6 \<and> 6 < end_pos (startEnd m))"
    unfolding t3 by simp
  have t5: "6 \<in> set (cursors ?t 0)"
    by (rule th [THEN conjunct2, THEN conjunct2, THEN conjunct1, THEN mp])
      (intro conjI disjI2 t1 t2 t4)
  have t6: "isB64Char (?t ! 6)" by code_simp
  have t7: "?r = ''aBcDeFgHiJkLmNoP''" by code_simp
  have t8: "16 \<le> length ?r" unfolding t7 by simp
  have t9: "\<not> (list_all isHexChar ?r \<and> 32 \<le> length ?r)" unfolding t7 by simp
  have "newMatch 3 6 (6 + length ?r +
      min 2 (length (takeWhile (\<lambda>c. c = CHR ''='') (drop (6 + length ?r) ?t))))
    \<in> set (scanLoop ?t 0 [])"
    by (rule th [THEN conjunct2, THEN conjunct1, THEN mp]) (intro conjI t5 t6 t8 t9)
  moreover have "6 + length ?r +
      min 2 (length (takeWhile (\<lambda>c. c = CHR ''='') (drop (6 + length ?r) ?t))) = 24"
    unfolding t7 by simp
  moreover have "findEncodingMatches overlaps ?t = scanLoop ?t 0 []"
    by (rule th [THEN conjunct2, THEN conjunct2, THEN conjunct2, THEN conjunct1])
  ultimately have t10: "newMatch 3 6 24 \<in> set (findEncodingMatches overlaps ?t)"
    by (simp only:)
  have a: "''aBcDeFgHiJkLmNoP'' \<noteq> []" by simp
  have b: "list_all isB64Char ''aBcDeFgHiJkLmNoP''" by code_simp
  have c: "\<not> list_all isHexChar ''aBcDeFgHiJkLmNoP''" by code_simp
  have l: "16 \<le> length ''aBcDeFgHiJkLmNoP''" by simp
  have a14: "''aBcDeFgHiJkLmN'' \<noteq> []" by simp
  have b14: "list_all isB64Char ''aBcDeFgHiJkLmN''" by code_simp
  have l14: "\<not> 16 \<le> length ''aBcDeFgHiJkLmN''" by simp
  have iso: "((\<exists>m \<in> set (findEncodingMatches overlaps (run @ replicate k CHR ''='')).
          kind (encoding m) = base64Kind)
        \<longleftrightarrow> 16 \<le> length run \<and> \<not> (list_all isHexChar run \<and> 32 \<le> length run)) \<and>
      (16 \<le> length run \<and> \<not> (list_all isHexChar run \<and> 32 \<le> length run) \<longrightarrow>
         findEncodingMatches overlaps (run @ replicate k CHR ''='')
           = [newMatch 3 0 (length run + min 2 k)])"
    if "run \<noteq> []" "list_all isB64Char run" for run k
    by (rule base64_threshold_without_padding [where ov = overlaps and run = run and k = k,
          THEN conjunct2, THEN conjunct2, THEN conjunct2, THEN conjunct2, THEN conjunct2,
          THEN conjunct2, THEN mp])
      (intro conjI that)
  have e: "findEncodingMatches overlaps ?d = [newMatch 3 0 18]"
    using a b c l iso [of "''aBcDeFgHiJkLmNoP''" 3] by simp
  have n: "\<not> (\<exists>m \<in> set (findEncodingMatches overlaps (''aBcDeFgHiJkLmN'' @ replicate 2 CHR ''='')).
        kind (encoding m) = base64Kind)"
    using l14 iso [OF a14 b14, of 2] by blast
  have m: "newMatch 3 0 18 \<in> set (findEncodingMatches overlaps ?d)" unfolding e by simp
  have k: "kind (encoding (newMatch 3 0 18)) = base64Kind" by simp
  have "kind (encoding (newMatch 3 0 18)) = base64Kind \<longrightarrow>
      base64Span ?d (start (startEnd (newMatch 3 0 18))) (end_pos (startEnd (newMatch 3 0 18)))"
    using base64_threshold_without_padding [where ov = overlaps and data = ?d, THEN conjunct1] m
    by (rule bspec)
  then have s: "base64Span ?d 0 18" using k by simp
  from t1 t2 t3 t5 t7 t10 a b l e k s n show ?thesis by (intro conjI)
qed

text \<open>
  Fourteen characters and \<open>==\<close> are sixteen with the padding and give no match; a run of
  18 characters between two percent triplets of one line lies inside the Percent match and
  gives no match of its own.
\<close>

theorem padded_run_counterexample:
  "list_all isB64Char ''aBcDeFgHiJkLmN'' \<and> length ''aBcDeFgHiJkLmN=='' = 16 \<and>
   findEncodingMatches overlaps ''aBcDeFgHiJkLmN=='' = [] \<and>
   list_all isB64Char ''aBcDeFgHiJkLmNoPqR'' \<and> length ''aBcDeFgHiJkLmNoPqR'' = 18 \<and>
   findEncodingMatches overlaps (''%41 '' @ ''aBcDeFgHiJkLmNoPqR'' @ '' %42'')
     = [newMatch 0 0 26]"
  by code_simp

section \<open>Order and precedence\<close>

text \<open>
  Claim C8.  The matches of one scan have non-empty spans, are in strictly increasing order
  of their start positions, and no two of their half-open spans intersect.  This holds
  whatever the overlap test of the filter is, since the filter only removes candidates.
\<close>

theorem matches_ordered_disjoint:
  "(\<forall>i < length (findEncodingMatches ov data).
      start (startEnd (findEncodingMatches ov data ! i))
        < end_pos (startEnd (findEncodingMatches ov data ! i))) \<and>
   (\<forall>i j. i < j \<and> j < length (findEncodingMatches ov data) \<longrightarrow>
      start (startEnd (findEncodingMatches ov data ! i))
        < start (startEnd (findEncodingMatches ov data ! j)) \<and>
      {start (startEnd (findEncodingMatches ov data ! i)) ..<
         end_pos (startEnd (findEncodingMatches ov data ! i))} \<inter>
      {start (startEnd (findEncodingMatches ov data ! j)) ..<
         end_pos (startEnd (findEncodingMatches ov data ! j))} = {})"
proof -
  let ?ms = "findEncodingMatches ov data"
  have pos: "start (startEnd (?ms ! i)) < end_pos (startEnd (?ms ! i))" if "i < length ?ms" for i
    using that scanLoop_chain [of data] findEncodingMatches_subset [of ov data] nth_mem [OF that]
    by blast
  have ord: "end_pos (startEnd (?ms ! i)) \<le> start (startEnd (?ms ! j))"
    if "i < j" "j < length ?ms" for i j
    using that findEncodingMatches_chain [of ov data] by (simp add: sorted_wrt_iff_nth_less)
  show ?thesis
  proof (intro conjI allI impI)
    fix i assume "i < length ?ms"
    then show "start (startEnd (?ms ! i)) < end_pos (startEnd (?ms ! i))" by (rule pos)
  next
    fix i j assume ij: "i < j \<and> j < length ?ms"
    then have "i < length ?ms" by simp
    from pos [OF this] ord [of i j] ij
    show "start (startEnd (?ms ! i)) < start (startEnd (?ms ! j))" by simp
  next
    fix i j assume ij: "i < j \<and> j < length ?ms"
    with ord [of i j]
    show "{start (startEnd (?ms ! i)) ..< end_pos (startEnd (?ms ! i))} \<inter>
      {start (startEnd (?ms ! j)) ..< end_pos (startEnd (?ms ! j))} = {}"
      by auto
  qed
qed

theorem matches_ordered_disjoint_witness:
  "(0::nat) < 1 \<and> 1 < length (findEncodingMatches overlaps (''%20hello'' @ [CHR 0x0A] @ ''%3D'')) \<and>
   findEncodingMatches overlaps (''%20hello'' @ [CHR 0x0A] @ ''%3D'')
     = [newMatch 0 0 3, newMatch 0 9 12] \<and>
   {start (startEnd (findEncodingMatches overlaps (''%20hello'' @ [CHR 0x0A] @ ''%3D'') ! 0)) ..<
      end_pos (startEnd (findEncodingMatches overlaps (''%20hello'' @ [CHR 0x0A] @ ''%3D'') ! 0))} \<inter>
   {start (startEnd (findEncodingMatches overlaps (''%20hello'' @ [CHR 0x0A] @ ''%3D'') ! 1)) ..<
      end_pos (startEnd (findEncodingMatches overlaps (''%20hello'' @ [CHR 0x0A] @ ''%3D'') ! 1))} = {}"
proof -
  have e: "findEncodingMatches overlaps (''%20hello'' @ [CHR 0x0A] @ ''%3D'')
      = [newMatch 0 0 3, newMatch 0 9 12]"
    by code_simp
  have l: "(0::nat) < 1 \<and> 1 < length (findEncodingMatches overlaps (''%20hello'' @ [CHR 0x0A] @ ''%3D''))"
    unfolding e by simp
  from matches_ordered_disjoint [of overlaps "''%20hello'' @ [CHR 0x0A] @ ''%3D''"] l
  have "{start (startEnd (findEncodingMatches overlaps (''%20hello'' @ [CHR 0x0A] @ ''%3D'') ! 0)) ..<
      end_pos (startEnd (findEncodingMatches overlaps (''%20hello'' @ [CHR 0x0A] @ ''%3D'') ! 0))} \<inter>
   {start (startEnd (findEncodingMatches overlaps (''%20hello'' @ [CHR 0x0A] @ ''%3D'') ! 1)) ..<
      end_pos (startEnd (findEncodingMatches overlaps (''%20hello'' @ [CHR 0x0A] @ ''%3D'') ! 1))} = {}"
    by blast
  with e l show ?thesis by blast
qed



section \<open>Percent and code-point matches\<close>

text \<open>
  Claim C3.  In every text, a Percent match of the scanner begins at a \<open>%\<close> followed by two
  hex digits; it ends at the end of a \<open>%XX\<close> triplet, and no triplet begins behind it on
  the same line, so that it reaches the last triplet of the line; it holds no newline; and
  it is a span, so that whatever stands between its triplets is inside it.  Every \<open>%XX\<close>
  triplet of the text lies in a Percent match: a triplet on a later line lies in a match of
  its own line, separate from the matches of the lines before.
\<close>

theorem percent_matches:
  "(\<forall>m \<in> set (findEncodingMatches ov data). kind (encoding m) = percentKind \<longrightarrow>
      percentSpan data (start (startEnd m)) (end_pos (startEnd m))) \<and>
   (\<forall>p. percentAt data p \<longrightarrow>
      (\<exists>m \<in> set (findEncodingMatches ov data). kind (encoding m) = percentKind \<and>
         start (startEnd m) \<le> p \<and> p + 3 \<le> end_pos (startEnd m)))"
proof (intro conjI ballI allI impI)
  fix m assume m: "m \<in> set (findEncodingMatches ov data)" and k: "kind (encoding m) = percentKind"
  from m have "m \<in> set (scanLoop data 0 [])" using findEncodingMatches_subset by blast
  then obtain i where i: "i < length data" "m \<in> set (fst (scanStep data i))"
    using scanLoop_emitted by blast
  from scanStep_percent_kind [OF i k] percent_branch_span [of data i]
  show "percentSpan data (start (startEnd m)) (end_pos (startEnd m))" by auto
next
  fix p assume "percentAt data p"
  then obtain m where "m \<in> set (scanLoop data 0 [])" "kind (encoding m) = percentKind"
    "start (startEnd m) \<le> p" "p + 3 \<le> end_pos (startEnd m)"
    using scanLoop_covers_percent by blast
  then show "\<exists>m \<in> set (findEncodingMatches ov data). kind (encoding m) = percentKind \<and>
      start (startEnd m) \<le> p \<and> p + 3 \<le> end_pos (startEnd m)"
    using percent_survives by blast
qed

theorem percent_matches_witness:
  "findEncodingMatches overlaps (''%20stuff%3D'' @ [CHR 0x0A] @ ''%41'')
     = [newMatch 0 0 11, newMatch 0 12 15] \<and>
   kind (encoding (newMatch 0 0 11)) = percentKind \<and>
   percentSpan (''%20stuff%3D'' @ [CHR 0x0A] @ ''%41'') 0 11 \<and>
   percentAt (''%20stuff%3D'' @ [CHR 0x0A] @ ''%41'') 12 \<and>
   (\<exists>m \<in> set (findEncodingMatches overlaps (''%20stuff%3D'' @ [CHR 0x0A] @ ''%41'')).
      kind (encoding m) = percentKind \<and> start (startEnd m) \<le> 12 \<and>
      12 + 3 \<le> end_pos (startEnd m))"
proof -
  let ?d = "''%20stuff%3D'' @ [CHR 0x0A] @ ''%41''"
  have e: "findEncodingMatches overlaps ?d = [newMatch 0 0 11, newMatch 0 12 15]"
    by code_simp
  have m: "newMatch 0 0 11 \<in> set (findEncodingMatches overlaps ?d)" unfolding e by simp
  have k: "kind (encoding (newMatch 0 0 11)) = percentKind" by simp
  have p: "percentAt ?d 12" by code_simp
  from percent_matches [of overlaps ?d] m k
  have "percentSpan ?d (start (startEnd (newMatch 0 0 11))) (end_pos (startEnd (newMatch 0 0 11)))"
    by blast
  then have s: "percentSpan ?d 0 11" by simp
  from percent_matches [of overlaps ?d] p
  have "\<exists>m \<in> set (findEncodingMatches overlaps ?d). kind (encoding m) = percentKind \<and>
      start (startEnd m) \<le> 12 \<and> 12 + 3 \<le> end_pos (startEnd m)"
    by blast
  with e k s p show ?thesis by blast
qed




section \<open>The Unicode decoder\<close>




text \<open>
  Claim C7, as amended.  The decoder goes through its input in the notation that it
  selects: code-point notation if the input contains \<open>U+\<close>, else escape notation if it
  contains \<open>\u\<close> or \<open>\U\<close>.  Standing at a unit of that notation, that is at \<open>U+\<close> or at
  \<open>\u\<close>, \<open>\U\<close>, \<open>\\u\<close> or \<open>\\U\<close>, with four hex digits behind it, the routine parses
  exactly these four digits into the rune of the number they denote, emits what
  \<open>EncodeRune\<close> gives for that rune, and goes on with the text behind the unit, in
  code-point notation without one space or tab before a further \<open>U+\<close>.  What is emitted
  is the UTF-8 form of the code point, in one to three bytes, unless the code point is a
  surrogate half (\<open>D800\<close> to \<open>DFFF\<close>), for which the three bytes of \<open>U+FFFD\<close> are emitted,
  as Go's encoder does.  The routine decodes at the place where it stands exactly when
  the text there has this form, and copies one byte otherwise; a byte that cannot
  begin a unit of the notation, any byte but \<open>U\<close> or but the backslash, is always
  copied.  Hence a text in escape notation that is made of
  units and of text without a backslash, has a unit and does not contain \<open>U+\<close>, and a text
  in code-point notation whose groups stand one space or one tab apart behind text without
  \<open>U\<close>, decode to the same text with each unit replaced in this way.  The examples of
  the claim hold as they stand.
\<close>

theorem units_decoded:
  "(hexDigits4 d0 \<longrightarrow>
      parseHex4 (p @ d0 @ rest) (length p) = Some (runeOf d0) \<and>
      runeOf d0 = of_nat (codePointOf d0) \<and>
      EncodeRune (runeOf d0) =
        (if 0xD800 \<le> codePointOf d0 \<and> codePointOf d0 \<le> 0xDFFF then utf8 0xFFFD
         else utf8 (codePointOf d0))) \<and>
   (escapePiece (Unit q d) \<longrightarrow>
      decodeUnicodeEscapes (q @ d @ rest) = EncodeRune (runeOf d) @ decodeUnicodeEscapes rest) \<and>
   (hexDigits4 d \<longrightarrow>
      decodeUnicodeCodePoints (''U+'' @ d @ rest) =
        EncodeRune (runeOf d) @ decodeUnicodeCodePoints (dropSeparator rest)) \<and>
   (x \<noteq> CHR 0x5C \<longrightarrow> decodeUnicodeEscapes (x # rest) = x # decodeUnicodeEscapes rest) \<and>
   (x \<noteq> CHR ''U'' \<longrightarrow> decodeUnicodeCodePoints (x # rest) = x # decodeUnicodeCodePoints rest) \<and>
   decodeUnicodeEscapes [] = [] \<and> decodeUnicodeCodePoints [] = [] \<and>
   (Contains s ''U+'' \<longrightarrow> decodeUnicode s = decodeUnicodeCodePoints s) \<and>
   (\<not> Contains s ''U+'' \<and>
    (Contains s [CHR 0x5C, CHR ''u''] \<or> Contains s [CHR 0x5C, CHR ''U'']) \<longrightarrow>
      decodeUnicode s = decodeUnicodeEscapes s) \<and>
   (list_all escapePiece ps \<and> list_ex isUnit ps \<and> \<not> Contains (concat (map pieceText ps)) ''U+'' \<longrightarrow>
      decodeUnicode (concat (map pieceText ps)) = concat (map pieceOut ps)) \<and>
   (CHR ''U'' \<notin> set t \<and> hexDigits4 d \<and>
    (\<forall>(sep, d') \<in> set ds. (sep = CHR '' '' \<or> sep = CHR 0x09) \<and> hexDigits4 d') \<longrightarrow>
      decodeUnicode (codePointText t d ds) = codePointOut t d ds) \<and>
   decodeUnicode ([CHR 0x5C] @ ''u0041'' @ [CHR 0x5C, CHR 0x5C] @ ''u0042'') = ''AB'' \<and>
   decodeUnicode ''U+0041 U+0042'' = ''AB'' \<and>
   decodeUnicode ''U+ZZZZ'' = ''U+ZZZZ'' \<and>
   decodeUnicode ([CHR 0x5C] @ ''uZZZZ'') = [CHR 0x5C] @ ''uZZZZ'' \<and>
   (codePointUnit s 0 \<noteq> None \<longleftrightarrow> (\<exists>d rest. s = ''U+'' @ d @ rest \<and> hexDigits4 d)) \<and>
   (escapeUnit s 0 \<noteq> None \<longleftrightarrow>
      (\<exists>q d rest. s = q @ d @ rest \<and> escapePiece (Unit q d))) \<and>
   (codePointUnit (x # rest) 0 = None \<longrightarrow>
      decodeUnicodeCodePoints (x # rest) = x # decodeUnicodeCodePoints rest) \<and>
   (escapeUnit (x # rest) 0 = None \<longrightarrow>
      decodeUnicodeEscapes (x # rest) = x # decodeUnicodeEscapes rest)"
proof -
  have r: "hexDigits4 d0 \<longrightarrow>
      parseHex4 (p @ d0 @ rest) (length p) = Some (runeOf d0) \<and>
      runeOf d0 = of_nat (codePointOf d0) \<and>
      EncodeRune (runeOf d0) =
        (if 0xD800 \<le> codePointOf d0 \<and> codePointOf d0 \<le> 0xDFFF then utf8 0xFFFD
         else utf8 (codePointOf d0))"
    using unit_rune [of d0 p rest] by (rule impI)
  have eu: "escapePiece (Unit q d) \<longrightarrow>
      decodeUnicodeEscapes (q @ d @ rest) = EncodeRune (runeOf d) @ decodeUnicodeEscapes rest"
    using escapes_unit_text [of q d rest] by (rule impI)
  have cu: "hexDigits4 d \<longrightarrow>
      decodeUnicodeCodePoints (''U+'' @ d @ rest) =
        EncodeRune (runeOf d) @ decodeUnicodeCodePoints (dropSeparator rest)"
    using codePoints_unit_text [of d rest] by (rule impI)
  have ec: "x \<noteq> CHR 0x5C \<longrightarrow> decodeUnicodeEscapes (x # rest) = x # decodeUnicodeEscapes rest"
    using escapes_copy_text [of x rest] by (rule impI)
  have cc: "x \<noteq> CHR ''U'' \<longrightarrow>
      decodeUnicodeCodePoints (x # rest) = x # decodeUnicodeCodePoints rest"
    using codePoints_copy_notU [of x rest] by (rule impI)
  have en: "decodeUnicodeEscapes [] = []" by (rule decodeUnicodeEscapes_Nil)
  have cn: "decodeUnicodeCodePoints [] = []" by (rule decodeUnicodeCodePoints_Nil)
  have d1: "Contains s ''U+'' \<longrightarrow> decodeUnicode s = decodeUnicodeCodePoints s"
    by (simp add: decodeUnicode_def)
  have d2: "\<not> Contains s ''U+'' \<and>
    (Contains s [CHR 0x5C, CHR ''u''] \<or> Contains s [CHR 0x5C, CHR ''U'']) \<longrightarrow>
      decodeUnicode s = decodeUnicodeEscapes s"
    by (simp add: decodeUnicode_def)
  have e: "list_all escapePiece ps \<and> list_ex isUnit ps \<and>
      \<not> Contains (concat (map pieceText ps)) ''U+'' \<longrightarrow>
      decodeUnicode (concat (map pieceText ps)) = concat (map pieceOut ps)"
  proof
    assume a: "list_all escapePiece ps \<and> list_ex isUnit ps \<and>
      \<not> Contains (concat (map pieceText ps)) ''U+''"
    then have "decodeUnicode (concat (map pieceText ps)) =
        decodeUnicodeEscapes (concat (map pieceText ps))"
      using escape_piece_Contains [of ps] by (auto simp: decodeUnicode_def)
    with a show "decodeUnicode (concat (map pieceText ps)) = concat (map pieceOut ps)"
      by (simp add: escapes_pieces)
  qed
  have c: "CHR ''U'' \<notin> set t \<and> hexDigits4 d \<and>
      (\<forall>(sep, d') \<in> set ds. (sep = CHR '' '' \<or> sep = CHR 0x09) \<and> hexDigits4 d') \<longrightarrow>
      decodeUnicode (codePointText t d ds) = codePointOut t d ds"
  proof
    assume a: "CHR ''U'' \<notin> set t \<and> hexDigits4 d \<and>
      (\<forall>(sep, d') \<in> set ds. (sep = CHR '' '' \<or> sep = CHR 0x09) \<and> hexDigits4 d')"
    have "Contains (t @ ''U+'' @ (d @ concat (map (\<lambda>(sep, d'). sep # ''U+'' @ d') ds))) ''U+''"
      by (rule Contains_appendI)
    then have "decodeUnicode (codePointText t d ds) =
        decodeUnicodeCodePoints (codePointText t d ds)"
      by (simp add: decodeUnicode_def codePointText_def)
    also have "\<dots> = t @ decodeUnicodeCodePoints (codePointText [] d ds)"
      using a codePoints_text [of t "codePointText [] d ds"] by (simp add: codePointText_def)
    also have "\<dots> = t @ codePointOut [] d ds" using a by (simp add: codePoints_units)
    finally show "decodeUnicode (codePointText t d ds) = codePointOut t d ds"
      by (simp add: codePointOut_def)
  qed
  have x1: "decodeUnicode ([CHR 0x5C] @ ''u0041'' @ [CHR 0x5C, CHR 0x5C] @ ''u0042'') = ''AB''"
    by code_simp
  have x2: "decodeUnicode ''U+0041 U+0042'' = ''AB''" by code_simp
  have x3: "decodeUnicode ''U+ZZZZ'' = ''U+ZZZZ''" by code_simp
  have x4: "decodeUnicode ([CHR 0x5C] @ ''uZZZZ'') = [CHR 0x5C] @ ''uZZZZ''" by code_simp
  have i1: "codePointUnit s 0 \<noteq> None \<longleftrightarrow>
      (\<exists>d rest. s = ''U+'' @ d @ rest \<and> hexDigits4 d)"
    by (rule codePointUnit_iff)
  have i2: "escapeUnit s 0 \<noteq> None \<longleftrightarrow>
      (\<exists>q d rest. s = q @ d @ rest \<and> escapePiece (Unit q d))"
    by (rule escapeUnit_iff)
  have n1: "codePointUnit (x # rest) 0 = None \<longrightarrow>
      decodeUnicodeCodePoints (x # rest) = x # decodeUnicodeCodePoints rest"
    using decodeUnicodeCodePoints_copy [of x rest] by (rule impI)
  have n2: "escapeUnit (x # rest) 0 = None \<longrightarrow>
      decodeUnicodeEscapes (x # rest) = x # decodeUnicodeEscapes rest"
    using decodeUnicodeEscapes_copy [of x rest] by (rule impI)
  from r eu cu ec cc en cn d1 d2 e c x1 x2 x3 x4 i1 i2 n1 n2 show ?thesis by (intro conjI)
qed

theorem units_decoded_witness:
  "hexDigits4 ''20AC'' \<and> codePointOf ''20AC'' = 0x20AC \<and>
   parseHex4 (''U+'' @ ''20AC'' @ ''!'') 2 = Some 0x20AC \<and>
   EncodeRune 0x20AC = utf8 0x20AC \<and> utf8 0x20AC = [CHR 0xE2, CHR 0x82, CHR 0xAC] \<and>
   hexDigits4 ''0041'' \<and> Contains ''U+0041.'' ''U+'' \<and> dropSeparator ''.'' = ''.'' \<and>
   decodeUnicode ''U+0041.'' = ''A.'' \<and>
   escapePiece (Unit [CHR 0x5C, CHR ''u''] ''0041'') \<and>
   decodeUnicode (''a'' @ [CHR 0x0A, CHR 0x5C] @ ''u0041'') = ''a'' @ [CHR 0x0A] @ ''A'' \<and>
   list_all escapePiece [Text ''id='', Unit [CHR 0x5C, CHR ''u''] ''00e9'',
       Unit [CHR 0x5C, CHR 0x5C, CHR ''U''] ''20AC'', Text ''.''] \<and>
   decodeUnicode (''id='' @ [CHR 0x5C] @ ''u00e9'' @ [CHR 0x5C, CHR 0x5C] @ ''U20AC.'')
     = ''id='' @ [CHR 0xC3, CHR 0xA9] @ [CHR 0xE2, CHR 0x82, CHR 0xAC] @ ''.'' \<and>
   decodeUnicode ''key=U+0041 U+0042'' = ''key=AB''"
proof -
  let ?ps = "[Text ''id='', Unit [CHR 0x5C, CHR ''u''] ''00e9'',
       Unit [CHR 0x5C, CHR 0x5C, CHR ''U''] ''20AC'', Text ''.'']"
  have g: "hexDigits4 ''20AC''" by code_simp
  have cp: "codePointOf ''20AC'' = 0x20AC"
    by (simp add: codePointOf_def hex4Value_def digitValue_def less_eq_char_def)
  have ro: "runeOf ''20AC'' = 0x20AC"
    by (simp add: runeOf_def hex4Value_def digitValue_def less_eq_char_def)
  have u8: "utf8 0x20AC = [CHR 0xE2, CHR 0x82, CHR 0xAC]" by (simp add: utf8_def) code_simp
  have "parseHex4 (''U+'' @ ''20AC'' @ ''!'') (length ''U+'') = Some (runeOf ''20AC'') \<and>
      runeOf ''20AC'' = of_nat (codePointOf ''20AC'') \<and>
      EncodeRune (runeOf ''20AC'') =
        (if 0xD800 \<le> codePointOf ''20AC'' \<and> codePointOf ''20AC'' \<le> 0xDFFF then utf8 0xFFFD
         else utf8 (codePointOf ''20AC''))"
    by (rule units_decoded [where ?d0.0 = "''20AC''" and p = "''U+''" and rest = "''!''",
          THEN conjunct1, THEN mp]) (rule g)
  then have pe: "parseHex4 (''U+'' @ ''20AC'' @ ''!'') 2 = Some 0x20AC"
    and en: "EncodeRune 0x20AC = utf8 0x20AC"
    unfolding ro cp by (simp_all add: numeral_2_eq_2)
  have h: "hexDigits4 ''0041''" "hexDigits4 ''0042''" by code_simp+
  have ra: "runeOf ''0041'' = 0x41"
    by (simp add: runeOf_def hex4Value_def digitValue_def less_eq_char_def)
  have ea: "EncodeRune 0x41 = ''A''" by code_simp
  have ca: "Contains ''U+0041.'' ''U+''" by code_simp
  have ds: "dropSeparator ''.'' = ''.''" by code_simp
  have "decodeUnicode ''U+0041.'' = decodeUnicodeCodePoints ''U+0041.''"
    by (rule units_decoded [where s = "''U+0041.''", THEN conjunct2, THEN conjunct2,
          THEN conjunct2, THEN conjunct2, THEN conjunct2, THEN conjunct2, THEN conjunct2,
          THEN conjunct1, THEN mp]) (rule ca)
  also have "decodeUnicodeCodePoints (''U+'' @ ''0041'' @ ''.'') =
      EncodeRune (runeOf ''0041'') @ decodeUnicodeCodePoints (dropSeparator ''.'')"
    by (rule units_decoded [where d = "''0041''" and rest = "''.''", THEN conjunct2,
          THEN conjunct2, THEN conjunct1, THEN mp]) (rule h(1))
  then have "decodeUnicodeCodePoints ''U+0041.'' = ''A'' @ decodeUnicodeCodePoints ''.''"
    unfolding ra ea ds by simp
  also have "decodeUnicodeCodePoints (CHR ''.'' # []) = CHR ''.'' # decodeUnicodeCodePoints []"
    by (rule units_decoded [where x = "CHR ''.''" and rest = "[]", THEN conjunct2,
          THEN conjunct2, THEN conjunct2, THEN conjunct2, THEN conjunct1, THEN mp]) simp
  then have "decodeUnicodeCodePoints ''.'' = ''.''"
    using units_decoded [THEN conjunct2, THEN conjunct2, THEN conjunct2, THEN conjunct2,
        THEN conjunct2, THEN conjunct2, THEN conjunct1] by simp
  finally have dot: "decodeUnicode ''U+0041.'' = ''A.''" by simp
  have up: "escapePiece (Unit [CHR 0x5C, CHR ''u''] ''0041'')" using h(1) by simp
  have nl: "decodeUnicode (''a'' @ [CHR 0x0A, CHR 0x5C] @ ''u0041'') = ''a'' @ [CHR 0x0A] @ ''A''"
  proof -
    let ?s = "''a'' @ [CHR 0x0A, CHR 0x5C] @ ''u0041''"
    have n1: "\<not> Contains ?s ''U+'' \<and>
        (Contains ?s [CHR 0x5C, CHR ''u''] \<or> Contains ?s [CHR 0x5C, CHR ''U''])"
      by code_simp
    have "decodeUnicode ?s = decodeUnicodeEscapes ?s"
      by (rule units_decoded [where s = ?s, THEN conjunct2, THEN conjunct2, THEN conjunct2,
            THEN conjunct2, THEN conjunct2, THEN conjunct2, THEN conjunct2, THEN conjunct2,
            THEN conjunct1, THEN mp]) (rule n1)
    moreover have "decodeUnicodeEscapes (CHR ''a'' # ([CHR 0x0A, CHR 0x5C] @ ''u0041'')) =
        CHR ''a'' # decodeUnicodeEscapes ([CHR 0x0A, CHR 0x5C] @ ''u0041'')"
      by (rule units_decoded [where x = "CHR ''a''", THEN conjunct2, THEN conjunct2,
            THEN conjunct2, THEN conjunct1, THEN mp]) simp
    moreover have "decodeUnicodeEscapes (CHR 0x0A # ([CHR 0x5C] @ ''u0041'')) =
        CHR 0x0A # decodeUnicodeEscapes ([CHR 0x5C] @ ''u0041'')"
      by (rule units_decoded [where x = "CHR 0x0A", THEN conjunct2, THEN conjunct2,
            THEN conjunct2, THEN conjunct1, THEN mp]) simp
    moreover have "decodeUnicodeEscapes ([CHR 0x5C, CHR ''u''] @ ''0041'' @ []) =
        EncodeRune (runeOf ''0041'') @ decodeUnicodeEscapes []"
      by (rule units_decoded [where q = "[CHR 0x5C, CHR ''u'']" and d = "''0041''" and rest = "[]",
            THEN conjunct2, THEN conjunct1, THEN mp]) (rule up)
    moreover have "decodeUnicodeEscapes [] = []"
      by (rule units_decoded [THEN conjunct2, THEN conjunct2, THEN conjunct2, THEN conjunct2,
            THEN conjunct2, THEN conjunct1])
    ultimately show ?thesis unfolding ra ea by simp
  qed
  have v: "list_all escapePiece ?ps" by code_simp
  have u: "list_ex isUnit ?ps" by simp
  have tx: "concat (map pieceText ?ps) =
      ''id='' @ [CHR 0x5C] @ ''u00e9'' @ [CHR 0x5C, CHR 0x5C] @ ''U20AC.''" by simp
  have n: "\<not> Contains (concat (map pieceText ?ps)) ''U+''" unfolding tx by code_simp
  have out: "concat (map pieceOut ?ps) =
      ''id='' @ [CHR 0xC3, CHR 0xA9] @ [CHR 0xE2, CHR 0x82, CHR 0xAC] @ ''.''" by code_simp
  have "decodeUnicode (concat (map pieceText ?ps)) = concat (map pieceOut ?ps)"
    by (rule units_decoded [where ps = ?ps, THEN conjunct2, THEN conjunct2, THEN conjunct2,
          THEN conjunct2, THEN conjunct2, THEN conjunct2, THEN conjunct2, THEN conjunct2,
          THEN conjunct2, THEN conjunct1, THEN mp]) (intro conjI v u n)
  then have e: "decodeUnicode (''id='' @ [CHR 0x5C] @ ''u00e9'' @ [CHR 0x5C, CHR 0x5C] @ ''U20AC.'')
      = ''id='' @ [CHR 0xC3, CHR 0xA9] @ [CHR 0xE2, CHR 0x82, CHR 0xAC] @ ''.''"
    unfolding tx out .
  have c: "CHR ''U'' \<notin> set ''key=''" by simp
  have s: "\<forall>(sep, d') \<in> set [(CHR '' '', ''0042'')]. (sep = CHR '' '' \<or> sep = CHR 0x09) \<and> hexDigits4 d'"
    using h by simp
  have "decodeUnicode (codePointText ''key='' ''0041'' [(CHR '' '', ''0042'')])
      = codePointOut ''key='' ''0041'' [(CHR '' '', ''0042'')]"
    by (rule units_decoded [where t = "''key=''" and d = "''0041''"
          and ds = "[(CHR '' '', ''0042'')]", THEN conjunct2, THEN conjunct2, THEN conjunct2,
          THEN conjunct2, THEN conjunct2, THEN conjunct2, THEN conjunct2, THEN conjunct2,
          THEN conjunct2, THEN conjunct2, THEN conjunct1, THEN mp]) (intro conjI c h(1) s)
  moreover have "codePointText ''key='' ''0041'' [(CHR '' '', ''0042'')] = ''key=U+0041 U+0042''"
    by (simp add: codePointText_def)
  moreover have "codePointOut ''key='' ''0041'' [(CHR '' '', ''0042'')] = ''key=AB''"
    by (simp add: codePointOut_def) code_simp
  ultimately have k: "decodeUnicode ''key=U+0041 U+0042'' = ''key=AB''" by (simp only:)
  from g cp pe en u8 h(1) ca ds dot up nl v e k show ?thesis by (intro conjI)
qed

text \<open>
  A unit whose digits denote a surrogate half is not emitted in the UTF-8 form of its code
  point: \<open>\uD800\<close> decodes to the three bytes of \<open>U+FFFD\<close>.  A valid escape unit in a text
  that contains \<open>U+\<close> is not decoded at all.
\<close>

theorem surrogate_unit_counterexample:
  "hexDigits4 ''D800'' \<and> codePointOf ''D800'' = 0xD800 \<and>
   decodeUnicode ([CHR 0x5C] @ ''uD800'') = [CHR 0xEF, CHR 0xBF, CHR 0xBD] \<and>
   utf8 (codePointOf ''D800'') = [CHR 0xED, CHR 0xA0, CHR 0x80] \<and>
   utf8 0xFFFD = [CHR 0xEF, CHR 0xBF, CHR 0xBD] \<and>
   escapePiece (Unit [CHR 0x5C, CHR ''u''] ''0042'') \<and>
   decodeUnicode (''U+0041'' @ [CHR 0x5C] @ ''u0042'') = ''A'' @ [CHR 0x5C] @ ''u0042''"
proof -
  have h: "hexDigits4 ''D800''" by code_simp
  have cp: "codePointOf ''D800'' = 0xD800"
    by (simp add: codePointOf_def hex4Value_def digitValue_def less_eq_char_def)
  have d: "decodeUnicode ([CHR 0x5C] @ ''uD800'') = [CHR 0xEF, CHR 0xBF, CHR 0xBD]"
    by code_simp
  have u: "utf8 (codePointOf ''D800'') = [CHR 0xED, CHR 0xA0, CHR 0x80]"
    unfolding cp by (simp add: utf8_def) code_simp
  have f: "utf8 0xFFFD = [CHR 0xEF, CHR 0xBF, CHR 0xBD]" by (simp add: utf8_def) code_simp
  have e: "escapePiece (Unit [CHR 0x5C, CHR ''u''] ''0042'')" by code_simp
  have m: "decodeUnicode (''U+0041'' @ [CHR 0x5C] @ ''u0042'') = ''A'' @ [CHR 0x5C] @ ''u0042''"
    by code_simp
  from h cp d u f e m show ?thesis by (intro conjI)
qed

text \<open>
  Claim C10.  The decoder dispatches on content.  If the input contains \<open>U+\<close>, the result
  is that of the code-point routine and of it alone: every escape in the input, of either
  form, is in the result as it was, and what stands behind the escape is decoded by the
  code-point routine.  The escape routine runs only if the input does not contain \<open>U+\<close>
  and contains \<open>\u\<close> or \<open>\U\<close>.  An input that contains none of the three is returned
  unchanged.
\<close>

theorem decodeUnicode_dispatch:
  "(Contains s ''U+'' \<longrightarrow> decodeUnicode s = decodeUnicodeCodePoints s) \<and>
   (\<not> Contains s ''U+'' \<and> (Contains s [CHR 0x5C, CHR ''u''] \<or> Contains s [CHR 0x5C, CHR ''U'']) \<longrightarrow>
      decodeUnicode s = decodeUnicodeEscapes s) \<and>
   (\<not> Contains s ''U+'' \<and> \<not> Contains s [CHR 0x5C, CHR ''u''] \<and> \<not> Contains s [CHR 0x5C, CHR ''U''] \<longrightarrow>
      decodeUnicode s = s) \<and>
   (Contains (pre @ esc @ post) ''U+'' \<and> escapeUnit esc 0 = Some (r, length esc) \<longrightarrow>
      (\<exists>out. decodeUnicode (pre @ esc @ post) = out @ esc @ decodeUnicodeCodePoints post))"
proof (intro conjI impI)
  assume "Contains (pre @ esc @ post) ''U+'' \<and> escapeUnit esc 0 = Some (r, length esc)"
  then show "\<exists>out. decodeUnicode (pre @ esc @ post) = out @ esc @ decodeUnicodeCodePoints post"
    using codePoints_keep_escape [of esc r pre post] by (simp add: decodeUnicode_def)
qed (simp_all add: decodeUnicode_def)

theorem decodeUnicode_dispatch_witness:
  "Contains (''U+0041'' @ ([CHR 0x5C] @ ''u0042'') @ ''!'') ''U+'' \<and>
   escapeUnit ([CHR 0x5C] @ ''u0042'') 0 = Some (0x42, length ([CHR 0x5C] @ ''u0042'')) \<and>
   decodeUnicode (''U+0041'' @ ([CHR 0x5C] @ ''u0042'') @ ''!'')
     = decodeUnicodeCodePoints (''U+0041'' @ ([CHR 0x5C] @ ''u0042'') @ ''!'') \<and>
   (\<exists>out. decodeUnicode (''U+0041'' @ ([CHR 0x5C] @ ''u0042'') @ ''!'')
     = out @ ([CHR 0x5C] @ ''u0042'') @ decodeUnicodeCodePoints ''!'') \<and>
   decodeUnicode (''U+0041'' @ ([CHR 0x5C] @ ''u0042'') @ ''!'') = ''A'' @ [CHR 0x5C] @ ''u0042!'' \<and>
   decodeUnicode ([CHR 0x5C] @ ''u0042'') = decodeUnicodeEscapes ([CHR 0x5C] @ ''u0042'') \<and>
   decodeUnicode ([CHR 0x5C] @ ''u0042'') = ''B'' \<and>
   decodeUnicode ''just plain text'' = ''just plain text''"
proof -
  let ?e = "[CHR 0x5C] @ ''u0042''"
  let ?s = "''U+0041'' @ ?e @ ''!''"
  have c: "Contains ?s ''U+''" by code_simp
  have u: "escapeUnit ?e 0 = Some (0x42, length ?e)" by code_simp
  have n: "\<not> Contains ?e ''U+'' \<and> (Contains ?e [CHR 0x5C, CHR ''u''] \<or> Contains ?e [CHR 0x5C, CHR ''U''])"
    by code_simp
  have p: "\<not> Contains ''just plain text'' ''U+'' \<and>
      \<not> Contains ''just plain text'' [CHR 0x5C, CHR ''u''] \<and>
      \<not> Contains ''just plain text'' [CHR 0x5C, CHR ''U'']"
    by code_simp
  from decodeUnicode_dispatch [of ?s "''U+0041''" ?e "''!''" "0x42"] c u
  have 1: "decodeUnicode ?s = decodeUnicodeCodePoints ?s"
    and 2: "\<exists>out. decodeUnicode ?s = out @ ?e @ decodeUnicodeCodePoints ''!''"
    by blast+
  from decodeUnicode_dispatch [of ?e] n have 3: "decodeUnicode ?e = decodeUnicodeEscapes ?e"
    by blast
  from decodeUnicode_dispatch [of "''just plain text''"] p
  have 4: "decodeUnicode ''just plain text'' = ''just plain text''" by blast
  have 5: "decodeUnicode ?s = ''A'' @ [CHR 0x5C] @ ''u0042!''" by code_simp
  have 6: "decodeUnicode ?e = ''B''" by code_simp
  from c u 1 2 3 4 5 6 show ?thesis by blast
qed


section \<open>Escapes in the scanner\<close>

text \<open>
  Claim C5.  The scanner is to report a Unicode escape, of the single-backslash or of the
  double-backslash form, from the escape's first backslash, also when the escape's last hex
  digit is the last byte of the text.  The main loop admits the double-backslash form only
  under \<open>i+7 < n\<close>, one more than the seven bytes of the escape need and one more than the
  bound \<open>j+6 < n\<close> of the merging loops: on the seven bytes \<open>\\u0041\<close> it passes over
  the first backslash and reports the single-backslash escape that starts at the second
  one, the span \<open>[1, 7)\<close>.  With one more byte behind the escape the span is \<open>[0, 7)\<close>.
\<close>

theorem double_escape_at_end_of_text:
  "findEncodingMatches overlaps [CHR 0x5C, CHR 0x5C, CHR ''u'', CHR ''0'', CHR ''0'', CHR ''4'', CHR ''1'']
     = [newMatch 1 1 7] \<and>
   findEncodingMatches overlaps [CHR 0x5C, CHR 0x5C, CHR ''u'', CHR ''0'', CHR ''0'', CHR ''4'', CHR ''1'', CHR '' '']
     = [newMatch 1 0 7] \<and>
   findEncodingMatches overlaps [CHR 0x5C, CHR ''u'', CHR ''0'', CHR ''0'', CHR ''4'', CHR ''1'']
     = [newMatch 1 0 6]"
  by code_simp

end
